theory Spec2Isabelle
  imports Main "HOL-Library.Sublist"
begin

section \<open>Data model\<close>

text \<open>
  The three classes of \<^verbatim>\<open>lttngpack.py\<close> are plain records. The parsed version held by
  a package is a value of the external \<^verbatim>\<open>packaging.version\<close> library; it is kept
  abstract as the type parameter \<open>'v\<close>. A slot of \<^verbatim>\<open>_DistroVersion._pkgs\<close> holds
  whatever was appended to the Python list, and the Buildroot builder appends the
  result of its inner \<^verbatim>\<open>pkg()\<close>, which may be \<^verbatim>\<open>None\<close>: a slot is a
  \<open>'v pkg option\<close>.
\<close>

record 'v pkg =
  pkg_name :: string
  pkg_version :: 'v

record 'v distro_version =
  dv_version :: string
  dv_pkgs :: "'v pkg option list"

record 'v distro =
  distro_name :: string
  distro_versions :: "'v distro_version list"

text \<open>
  A Repology record is a JSON object; the code reads the keys \<^verbatim>\<open>repo\<close>,
  \<^verbatim>\<open>visiblename\<close> and \<^verbatim>\<open>version\<close>, which Repology always provides as strings.
\<close>

record repology_repo =
  repo :: string
  visiblename :: string
  version :: string

text \<open>
  The exceptions that the modelled code can raise: \<^verbatim>\<open>m.group(1)\<close> on a failed
  regular expression search and \<^verbatim>\<open>pkg.name\<close> on a \<^verbatim>\<open>None\<close> slot raise
  \<^verbatim>\<open>AttributeError\<close>; \<^verbatim>\<open>packaging.version.parse\<close> raises
  \<^verbatim>\<open>InvalidVersion\<close>; \<^verbatim>\<open>requests.get\<close> raises on a network failure;
  \<^verbatim>\<open>opt['value']\<close> raises \<^verbatim>\<open>KeyError\<close> on an option without that attribute.
\<close>

datatype error = AttributeError | InvalidVersion | RequestException | KeyError

text \<open>
  The external collaborators are parameters: the version parser
  (\<^verbatim>\<open>packaging.version.parse\<close>, \<open>None\<close> when it raises), the rendering of a
  parsed version (\<^verbatim>\<open>str\<close>) and the fetch layer (\<^verbatim>\<open>requests.get(url).text\<close>).
\<close>

type_synonym 'v version_parser = "string \<Rightarrow> 'v option"
type_synonym fetcher = "string \<Rightarrow> error + string"

section \<open>The shared filter-and-bucket routine\<close>

text \<open>
  \<^verbatim>\<open>for dv in distro_versions: if dv.version == repo_version: distro_version = dv\<close>:
  the scan has no \<^verbatim>\<open>break\<close>, so the last bucket with the label wins. The bucket is
  a reference into the list; the model keeps its index.
\<close>

fun scan_buckets :: "'v distro_version list \<Rightarrow> string \<Rightarrow> nat \<Rightarrow> nat option \<Rightarrow> nat option" where
  "scan_buckets [] rv i found = found"
| "scan_buckets (dv # dvs) rv i found =
     scan_buckets dvs rv (Suc i) (if dv_version dv = rv then Some i else found)"

text \<open>One iteration of the loop over \<^verbatim>\<open>repology_repos\<close>.\<close>

definition add_repo ::
  "'v version_parser \<Rightarrow> (repology_repo \<Rightarrow> string option) \<Rightarrow> 'v distro_version list \<Rightarrow>
   repology_repo \<Rightarrow> error + 'v distro_version list" where
  "add_repo parse repo_version_func dvs r =
     (case repo_version_func r of
        None \<Rightarrow> Inr dvs
      | Some rv \<Rightarrow>
          (let (dvs', i) =
                 (case scan_buckets dvs rv 0 None of
                    None \<Rightarrow> (dvs @ [\<lparr>dv_version = rv, dv_pkgs = []\<rparr>], length dvs)
                  | Some i \<Rightarrow> (dvs, i))
           in case parse (version r) of
                None \<Rightarrow> Inl InvalidVersion
              | Some v \<Rightarrow>
                  Inr (dvs'[i := (dvs' ! i)\<lparr>dv_pkgs :=
                         dv_pkgs (dvs' ! i) @ [Some \<lparr>pkg_name = visiblename r, pkg_version = v\<rparr>]\<rparr>])))"

fun add_repos ::
  "'v version_parser \<Rightarrow> (repology_repo \<Rightarrow> string option) \<Rightarrow> 'v distro_version list \<Rightarrow>
   repology_repo list \<Rightarrow> error + 'v distro_version list" where
  "add_repos parse repo_version_func dvs [] = Inr dvs"
| "add_repos parse repo_version_func dvs (r # rs) =
     (case add_repo parse repo_version_func dvs r of
        Inl e \<Rightarrow> Inl e
      | Inr dvs' \<Rightarrow> add_repos parse repo_version_func dvs' rs)"

definition distro_versions_from_repology_repos ::
  "'v version_parser \<Rightarrow> repology_repo list \<Rightarrow> (repology_repo \<Rightarrow> string option) \<Rightarrow>
   error + 'v distro_version list" where
  "distro_versions_from_repology_repos parse repology_repos repo_version_func =
     add_repos parse repo_version_func [] repology_repos"

text \<open>The matcher of \<^verbatim>\<open>_arch_distro\<close>: one fixed repository, a constant label.\<close>

definition arch_repo_version :: "repology_repo \<Rightarrow> string option" where
  "arch_repo_version r = (if repo r = ''arch'' then Some ''(rolling)'' else None)"

definition arch_distro :: "'v version_parser \<Rightarrow> repology_repo list \<Rightarrow> error + 'v distro" where
  "arch_distro parse repology_repos =
     (case distro_versions_from_repology_repos parse repology_repos arch_repo_version of
        Inl e \<Rightarrow> Inl e
      | Inr dvs \<Rightarrow> Inr \<lparr>distro_name = ''Arch Linux'', distro_versions = dvs\<rparr>)"

section \<open>Regular expressions\<close>

text \<open>
  The patterns of the source use literals, the classes \<^verbatim>\<open>.\<close>, \<^verbatim>\<open>\s\<close>,
  \<^verbatim>\<open>[^\s]\<close> and \<^verbatim>\<open>\d\<close>, the greedy quantifiers \<^verbatim>\<open>+\<close> and \<^verbatim>\<open>*\<close> on
  a class, and \<^verbatim>\<open>^\<close> under \<^verbatim>\<open>re.M\<close>. A text is a list of characters with code
  points below 256. On these, Python's \<^verbatim>\<open>\s\<close> is \<^verbatim>\<open>str.isspace\<close>: the code points
  9 to 13, 28 to 32, 133 and 160; \<^verbatim>\<open>\d\<close> is the ASCII digits; \<^verbatim>\<open>.\<close> is every
  character but the line feed, since no pattern is compiled with \<^verbatim>\<open>re.S\<close>.
\<close>

definition newline :: char where
  "newline = CHR 0x0A"

definition py_isspace :: "char \<Rightarrow> bool" where
  "py_isspace c =
     (let n = (of_char c :: nat)
      in (9 \<le> n \<and> n \<le> 13) \<or> (28 \<le> n \<and> n \<le> 32) \<or> n = 133 \<or> n = 160)"

definition py_isdigit :: "char \<Rightarrow> bool" where
  "py_isdigit c = (let n = (of_char c :: nat) in 48 \<le> n \<and> n \<le> 57)"

datatype char_class = AnyChar | Whitespace | NonWhitespace | Digit

fun in_class :: "char_class \<Rightarrow> char \<Rightarrow> bool" where
  "in_class AnyChar c = (c \<noteq> newline)"
| "in_class Whitespace c = py_isspace c"
| "in_class NonWhitespace c = (\<not> py_isspace c)"
| "in_class Digit c = py_isdigit c"

datatype re_item = Bol | Lit string | One char_class | Plus char_class | Star char_class

text \<open>
  A pattern is a sequence of items. \<open>parses\<close> lists every way the pattern matches at
  the start of a text, in the order in which Python's backtracking matcher tries them
  (a greedy quantifier takes the longest run first and gives characters back one at a
  time): each way is the list of the pieces consumed by the items, one piece per item,
  and the rest of the text. \<open>prev\<close> is the character before the current position
  (\<open>None\<close> at the start of the text), which \<^verbatim>\<open>^\<close> inspects.
\<close>

definition cons_piece :: "string \<Rightarrow> string list \<times> string \<Rightarrow> string list \<times> string" where
  "cons_piece p m = (p # fst m, snd m)"

definition last_char :: "char option \<Rightarrow> string \<Rightarrow> char option" where
  "last_char prev p = (if p = [] then prev else Some (last p))"

definition run_lengths :: "nat \<Rightarrow> char_class \<Rightarrow> string \<Rightarrow> nat list" where
  "run_lengths lo c s = rev [lo..<Suc (length (takeWhile (in_class c) s))]"

fun parses :: "re_item list \<Rightarrow> char option \<Rightarrow> string \<Rightarrow> (string list \<times> string) list" where
  "parses [] prev s = [([], s)]"
| "parses (Bol # its) prev s =
     (if prev = None \<or> prev = Some newline then map (cons_piece []) (parses its prev s) else [])"
| "parses (Lit l # its) prev s =
     (if prefix l s
      then map (cons_piece l) (parses its (last_char prev l) (drop (length l) s))
      else [])"
| "parses (One c # its) prev s =
     (case s of
        [] \<Rightarrow> []
      | x # xs \<Rightarrow> if in_class c x then map (cons_piece [x]) (parses its (Some x) xs) else [])"
| "parses (Plus c # its) prev s =
     concat (map (\<lambda>k. map (cons_piece (take k s))
                         (parses its (last_char prev (take k s)) (drop k s)))
                 (run_lengths 1 c s))"
| "parses (Star c # its) prev s =
     concat (map (\<lambda>k. map (cons_piece (take k s))
                         (parses its (last_char prev (take k s)) (drop k s)))
                 (run_lengths 0 c s))"

text \<open>
  \<^verbatim>\<open>re.match(pattern, s)\<close>: the first way to match at position 0, or \<^verbatim>\<open>None\<close>.
  The result is the list of pieces; \<^verbatim>\<open>m.group(k)\<close> is the piece of the item that the
  \<open>k\<close>-th parenthesis encloses.
\<close>

definition re_match :: "re_item list \<Rightarrow> string \<Rightarrow> string list option" where
  "re_match its s = (case parses its None s of [] \<Rightarrow> None | m # _ \<Rightarrow> Some (fst m))"

text \<open>\<^verbatim>\<open>re.search(pattern, s, re.M)\<close>: the first match at the leftmost position that has one.\<close>

fun re_search_from :: "re_item list \<Rightarrow> char option \<Rightarrow> string \<Rightarrow> string list option" where
  "re_search_from its prev s =
     (case parses its prev s of
        m # _ \<Rightarrow> Some (fst m)
      | [] \<Rightarrow> (case s of [] \<Rightarrow> None | c # cs \<Rightarrow> re_search_from its (Some c) cs))"

definition re_search :: "re_item list \<Rightarrow> string \<Rightarrow> string list option" where
  "re_search its s = re_search_from its None s"

section \<open>The Debian builder\<close>

text \<open>\<^verbatim>\<open>re.match(r'debian_(.+)', repo['repo'])\<close>; group 1 is the piece of the second item.\<close>

definition debian_re :: "re_item list" where
  "debian_re = [Lit ''debian_'', Plus AnyChar]"

definition debian_repo_version :: "repology_repo \<Rightarrow> string option" where
  "debian_repo_version r =
     (case re_match debian_re (repo r) of
        None \<Rightarrow> None
      | Some m \<Rightarrow> if m ! 1 \<noteq> ''sid'' then Some (m ! 1) else None)"

definition debian_distro :: "'v version_parser \<Rightarrow> repology_repo list \<Rightarrow> error + 'v distro" where
  "debian_distro parse repology_repos =
     (case distro_versions_from_repology_repos parse repology_repos debian_repo_version of
        Inl e \<Rightarrow> Inl e
      | Inr dvs \<Rightarrow> Inr \<lparr>distro_name = ''Debian'', distro_versions = dvs\<rparr>)"

section \<open>The Buildroot builder\<close>

definition buildroot_url :: "string \<Rightarrow> string \<Rightarrow> string" where
  "buildroot_url name br_version =
     ''https://git.buildroot.net/buildroot/plain/package/'' @ name @ ''/'' @ name @
     ''.mk?h='' @ br_version @ ''.x''"

text \<open>
  \<^verbatim>\<open>r'^LTTNG_.+_VERSION\s+=\s+([^\s]+)'\<close>, searched with \<^verbatim>\<open>re.M\<close>; group 1 is the
  piece of the last item, at index 7.
\<close>

definition lttng_version_re :: "re_item list" where
  "lttng_version_re =
     [Bol, Lit ''LTTNG_'', Plus AnyChar, Lit ''_VERSION'', Plus Whitespace, Lit ''='',
      Plus Whitespace, Plus NonWhitespace]"

text \<open>The inner function \<^verbatim>\<open>pkg(name)\<close> of \<^verbatim>\<open>distro_version(br_version)\<close>.\<close>

definition buildroot_pkg ::
  "fetcher \<Rightarrow> 'v version_parser \<Rightarrow> string \<Rightarrow> string \<Rightarrow> error + 'v pkg option" where
  "buildroot_pkg get parse br_version name =
     (case get (buildroot_url name br_version) of
        Inl e \<Rightarrow> Inl e
      | Inr text \<Rightarrow>
          if sublist ''Invalid branch'' text then Inr None
          else (case re_search lttng_version_re text of
                  None \<Rightarrow> Inl AttributeError
                | Some m \<Rightarrow>
                    (case parse (m ! 7) of
                       None \<Rightarrow> Inl InvalidVersion
                     | Some v \<Rightarrow> Inr (Some \<lparr>pkg_name = name, pkg_version = v\<rparr>))))"

text \<open>The inner function \<^verbatim>\<open>distro_version(br_version)\<close> of \<^verbatim>\<open>_buildroot_distro\<close>.\<close>

definition buildroot_distro_version ::
  "fetcher \<Rightarrow> 'v version_parser \<Rightarrow> string \<Rightarrow> error + 'v distro_version option" where
  "buildroot_distro_version get parse br_version =
     (case buildroot_pkg get parse br_version ''lttng-tools'' of
        Inl e \<Rightarrow> Inl e
      | Inr None \<Rightarrow> Inr None
      | Inr (Some lttng_tools_pkg) \<Rightarrow>
          (case buildroot_pkg get parse br_version ''lttng-libust'' of
             Inl e \<Rightarrow> Inl e
           | Inr lttng_ust_pkg \<Rightarrow>
               (case buildroot_pkg get parse br_version ''lttng-modules'' of
                  Inl e \<Rightarrow> Inl e
                | Inr lttng_modules_pkg \<Rightarrow>
                    Inr (Some \<lparr>dv_version = br_version,
                               dv_pkgs = [Some lttng_tools_pkg, lttng_ust_pkg,
                                          lttng_modules_pkg]\<rparr>))))"

text \<open>
  \<^verbatim>\<open>f'{yr}.{month:02}'\<close>: the year in decimal, a period, the month in decimal padded
  with zeros to two characters. Both counters start positive and only grow, so they
  are natural numbers.
\<close>

definition digit_char :: "nat \<Rightarrow> char" where
  "digit_char d = char_of (48 + d)"

function str_nat :: "nat \<Rightarrow> string" where
  "str_nat n = (if n < 10 then [digit_char n] else str_nat (n div 10) @ [digit_char (n mod 10)])"
  by pat_completeness auto
termination
  by (relation "measure id") auto

definition zero_pad :: "nat \<Rightarrow> string \<Rightarrow> string" where
  "zero_pad w s = replicate (w - length s) (CHR ''0'') @ s"

definition br_version_str :: "nat \<Rightarrow> nat \<Rightarrow> string" where
  "br_version_str yr month = str_nat yr @ ''.'' @ zero_pad 2 (str_nat month)"

text \<open>
  The \<^verbatim>\<open>while True\<close> loop. Nothing in the code bounds it, so it is a partial function:
  the value \<open>None\<close> stands for a loop that never ends, \<open>Some (Inl e)\<close> for an
  exception that leaves it, \<open>Some (Inr dvs)\<close> for the \<^verbatim>\<open>break\<close>.
\<close>

partial_function (option) buildroot_loop ::
  "fetcher \<Rightarrow> 'v version_parser \<Rightarrow> nat \<Rightarrow> nat \<Rightarrow> 'v distro_version list \<Rightarrow>
   (error + 'v distro_version list) option" where
  "buildroot_loop get parse yr month dvs =
     (case buildroot_distro_version get parse (br_version_str yr month) of
        Inl e \<Rightarrow> Some (Inl e)
      | Inr None \<Rightarrow> Some (Inr dvs)
      | Inr (Some dist_version) \<Rightarrow>
          (if month + 3 > 11
           then buildroot_loop get parse (yr + 1) 2 (dvs @ [dist_version])
           else buildroot_loop get parse yr (month + 3) (dvs @ [dist_version])))"

definition buildroot_distro :: "fetcher \<Rightarrow> 'v version_parser \<Rightarrow> (error + 'v distro) option" where
  "buildroot_distro get parse =
     (case buildroot_loop get parse 2019 2 [] of
        None \<Rightarrow> None
      | Some (Inl e) \<Rightarrow> Some (Inl e)
      | Some (Inr dvs) \<Rightarrow> Some (Inr \<lparr>distro_name = ''Buildroot'', distro_versions = dvs\<rparr>))"

section \<open>The Yocto identifier enumeration\<close>

text \<open>
  \<^verbatim>\<open>yocto_version_blacklist\<close> is a Python set of patterns, each tried with
  \<^verbatim>\<open>re.match\<close>. The loop over it only asks whether some pattern matches, so the
  order in which the set is iterated does not matter; the list has the order of the
  source text.
\<close>

definition yocto_version_blacklist :: "re_item list list" where
  "yocto_version_blacklist =
     [[Star AnyChar, Lit ''-next'', Star AnyChar],
      [One Digit, Star AnyChar],
      [Lit ''daisy''], [Lit ''danny''], [Lit ''denzil''], [Lit ''dizzy''], [Lit ''dora''],
      [Lit ''dylan''], [Lit ''fido''], [Lit ''jethro''], [Lit ''krogoth''], [Lit ''master''],
      [Lit ''morty''], [Lit ''pyro''], [Lit ''rocko''], [Lit ''sumo'']]"

text \<open>The inner loop: \<^verbatim>\<open>is_valid\<close> after trying the patterns, with its \<^verbatim>\<open>break\<close>.\<close>

fun is_valid :: "re_item list list \<Rightarrow> string \<Rightarrow> bool" where
  "is_valid [] v = True"
| "is_valid (blacklist_re # res) v =
     (if re_match blacklist_re v \<noteq> None then False else is_valid res v)"

text \<open>
  The outer loop over the \<^verbatim>\<open>option\<close> elements that \<^verbatim>\<open>bs4\<close> found, each given by
  its \<^verbatim>\<open>value\<close> attribute (\<open>None\<close> when the element has none, on which
  \<^verbatim>\<open>opt['value']\<close> raises).
\<close>

fun valid_versions_loop :: "string option list \<Rightarrow> string list \<Rightarrow> error + string list" where
  "valid_versions_loop [] valid_versions = Inr valid_versions"
| "valid_versions_loop (opt # opts) valid_versions =
     (case opt of
        None \<Rightarrow> Inl KeyError
      | Some v \<Rightarrow>
          valid_versions_loop opts
            (if is_valid yocto_version_blacklist v then valid_versions @ [v] else valid_versions))"

definition yocto_valid_versions :: "string option list \<Rightarrow> error + string list" where
  "yocto_valid_versions opts = valid_versions_loop opts []"

section \<open>The table columns\<close>

text \<open>
  \<^verbatim>\<open>_DistroVersion.pkg(name)\<close>: the first slot whose \<^verbatim>\<open>name\<close> is the given one;
  falling off the loop returns \<^verbatim>\<open>None\<close>. Reading \<^verbatim>\<open>pkg.name\<close> of a slot that
  holds \<^verbatim>\<open>None\<close> raises.
\<close>

fun pkg_scan :: "'v pkg option list \<Rightarrow> string \<Rightarrow> error + 'v pkg option" where
  "pkg_scan [] name = Inr None"
| "pkg_scan (None # ps) name = Inl AttributeError"
| "pkg_scan (Some p # ps) name = (if pkg_name p = name then Inr (Some p) else pkg_scan ps name)"

definition distro_version_pkg :: "'v distro_version \<Rightarrow> string \<Rightarrow> error + 'v pkg option" where
  "distro_version_pkg dv name = pkg_scan (dv_pkgs dv) name"

text \<open>The loop over \<^verbatim>\<open>pkg_names\<close> of \<^verbatim>\<open>distro_version_pkg_version\<close>.\<close>

fun first_named_pkg :: "'v distro_version \<Rightarrow> string list \<Rightarrow> error + 'v pkg option" where
  "first_named_pkg dv [] = Inr None"
| "first_named_pkg dv (name # pkg_names) =
     (case distro_version_pkg dv name of
        Inl e \<Rightarrow> Inl e
      | Inr None \<Rightarrow> first_named_pkg dv pkg_names
      | Inr (Some p) \<Rightarrow> Inr (Some p))"

definition distro_version_pkg_version ::
  "('v \<Rightarrow> string) \<Rightarrow> 'v distro_version \<Rightarrow> string list \<Rightarrow> error + string" where
  "distro_version_pkg_version str dv pkg_names =
     (case first_named_pkg dv pkg_names of
        Inl e \<Rightarrow> Inl e
      | Inr None \<Rightarrow> Inr []
      | Inr (Some p) \<Rightarrow> Inr (str (pkg_version p)))"

text \<open>The alias lists of the three columns, as \<^verbatim>\<open>table.add_row\<close> passes them.\<close>

definition tools_names :: "string list" where
  "tools_names = [''lttng-tools'', ''ltt-control'']"

definition ust_names :: "string list" where
  "ust_names = [''lttng-ust'', ''ust'', ''lttng-libust'']"

definition modules_names :: "string list" where
  "modules_names = [''lttng-modules'']"

section \<open>The routine on an explicit state\<close>

text \<open>
  The same routine with the list object it is given kept in the state: the
  \<^verbatim>\<open>for\<close> loop is Python's list iterator, which reads the list by index and compares
  the index with the current length before each step. The state holds the shared
  input list and the local list of buckets; the outcome is the exception, if any.
\<close>

record 'v build_state =
  shared_repos :: "repology_repo list"
  local_dvs :: "'v distro_version list"

function build_from ::
  "'v version_parser \<Rightarrow> (repology_repo \<Rightarrow> string option) \<Rightarrow> nat \<Rightarrow> 'v build_state \<Rightarrow>
   error option \<times> 'v build_state" where
  "build_from parse repo_version_func i st =
     (if i < length (shared_repos st)
      then (case add_repo parse repo_version_func (local_dvs st) (shared_repos st ! i) of
              Inl e \<Rightarrow> (Some e, st)
            | Inr dvs' \<Rightarrow> build_from parse repo_version_func (Suc i) (st\<lparr>local_dvs := dvs'\<rparr>))
      else (None, st))"
  by pat_completeness auto
termination
  by (relation "measure (\<lambda>(parse, f, i, st). length (shared_repos st) - i)") auto

definition build ::
  "'v version_parser \<Rightarrow> (repology_repo \<Rightarrow> string option) \<Rightarrow> repology_repo list \<Rightarrow>
   error option \<times> 'v build_state" where
  "build parse repo_version_func repology_repos =
     build_from parse repo_version_func 0 \<lparr>shared_repos = repology_repos, local_dvs = []\<rparr>"

definition build_result :: "error option \<times> 'v build_state \<Rightarrow> error + 'v distro_version list" where
  "build_result out = (case fst out of Some e \<Rightarrow> Inl e | None \<Rightarrow> Inr (local_dvs (snd out)))"

section \<open>Reference descriptions\<close>

text \<open>
  What the bucket list should be, in the words of the specification: the labels in the
  order of their first occurrence among the matching records, and for each label the
  packages of the records carrying it, in the order of the records.
\<close>

definition first_labels :: "string list \<Rightarrow> string list" where
  "first_labels ls = rev (remdups (rev ls))"

definition contributions ::
  "'v version_parser \<Rightarrow> (repology_repo \<Rightarrow> string option) \<Rightarrow> string \<Rightarrow> repology_repo list \<Rightarrow>
   'v pkg option list" where
  "contributions parse f l rs =
     map (\<lambda>r. map_option (\<lambda>v. \<lparr>pkg_name = visiblename r, pkg_version = v\<rparr>) (parse (version r)))
       (filter (\<lambda>r. f r = Some l) rs)"

definition spec_buckets ::
  "'v version_parser \<Rightarrow> (repology_repo \<Rightarrow> string option) \<Rightarrow> repology_repo list \<Rightarrow>
   'v distro_version list" where
  "spec_buckets parse f rs =
     map (\<lambda>l. \<lparr>dv_version = l, dv_pkgs = contributions parse f l rs\<rparr>)
       (first_labels (List.map_filter f rs))"

section \<open>Example inputs\<close>

text \<open>A parser that accepts every string and keeps it, and the rendering to go with it.\<close>

definition keep_version :: "string version_parser" where
  "keep_version s = Some s"

definition mixed_repos :: "repology_repo list" where
  "mixed_repos =
     [\<lparr>repo = ''arch'', visiblename = ''lttng-tools'', version = ''2.13.0''\<rparr>,
      \<lparr>repo = ''debian_11'', visiblename = ''lttng-tools'', version = ''2.12.0''\<rparr>,
      \<lparr>repo = ''arch'', visiblename = ''lttng-ust'', version = ''2.13.1''\<rparr>,
      \<lparr>repo = ''debian_12'', visiblename = ''lttng-ust'', version = ''2.13.5''\<rparr>,
      \<lparr>repo = ''debian_11'', visiblename = ''lttng-modules'', version = ''2.12.5''\<rparr>]"

definition arch_buckets :: "string distro_version list" where
  "arch_buckets =
     [\<lparr>dv_version = ''(rolling)'',
       dv_pkgs = [Some \<lparr>pkg_name = ''lttng-tools'', pkg_version = ''2.13.0''\<rparr>,
                  Some \<lparr>pkg_name = ''lttng-ust'', pkg_version = ''2.13.1''\<rparr>]\<rparr>]"

definition debian_scenario_repos :: "repology_repo list" where
  "debian_scenario_repos =
     [\<lparr>repo = ''debian_11'', visiblename = ''lttng-tools'', version = ''2.13.0''\<rparr>,
      \<lparr>repo = ''debian_sid'', visiblename = ''lttng-tools'', version = ''2.14.0''\<rparr>]"

definition debian_buckets :: "string distro_version list" where
  "debian_buckets =
     [\<lparr>dv_version = ''11'',
       dv_pkgs = [Some \<lparr>pkg_name = ''lttng-tools'', pkg_version = ''2.12.0''\<rparr>,
                  Some \<lparr>pkg_name = ''lttng-modules'', pkg_version = ''2.12.5''\<rparr>]\<rparr>,
      \<lparr>dv_version = ''12'',
       dv_pkgs = [Some \<lparr>pkg_name = ''lttng-ust'', pkg_version = ''2.13.5''\<rparr>]\<rparr>]"

text \<open>
  What it means for a list of pieces to match a pattern, item by item, when the
  character before the first piece is \<open>prev\<close>.
\<close>

fun matches_items :: "re_item list \<Rightarrow> char option \<Rightarrow> string list \<Rightarrow> bool" where
  "matches_items [] prev ps = (ps = [])"
| "matches_items (it # its) prev [] = False"
| "matches_items (Bol # its) prev (p # ps) =
     (p = [] \<and> (prev = None \<or> prev = Some newline) \<and> matches_items its prev ps)"
| "matches_items (Lit l # its) prev (p # ps) =
     (p = l \<and> matches_items its (last_char prev p) ps)"
| "matches_items (One c # its) prev (p # ps) =
     (length p = 1 \<and> list_all (in_class c) p \<and> matches_items its (last_char prev p) ps)"
| "matches_items (Plus c # its) prev (p # ps) =
     (p \<noteq> [] \<and> list_all (in_class c) p \<and> matches_items its (last_char prev p) ps)"
| "matches_items (Star c # its) prev (p # ps) =
     (list_all (in_class c) p \<and> matches_items its (last_char prev p) ps)"

text \<open>
  A version line in a recipe body, in the words of the specification: at the start of
  a line, a key \<^verbatim>\<open>LTTNG_..._VERSION\<close>, white space, an equals sign, white space and
  a value without white space. The white space is any run of Python white space, line
  breaks included.
\<close>

definition version_line ::
  "string \<Rightarrow> string \<Rightarrow> string \<Rightarrow> string \<Rightarrow> string \<Rightarrow> string \<Rightarrow> string \<Rightarrow> bool" where
  "version_line body before key ws1 ws2 val after =
     (body = before @ ''LTTNG_'' @ key @ ''_VERSION'' @ ws1 @ ''='' @ ws2 @ val @ after \<and>
      (before = [] \<or> last before = newline) \<and>
      key \<noteq> [] \<and> list_all (\<lambda>c. c \<noteq> newline) key \<and>
      ws1 \<noteq> [] \<and> list_all py_isspace ws1 \<and>
      ws2 \<noteq> [] \<and> list_all py_isspace ws2 \<and>
      val \<noteq> [] \<and> list_all (\<lambda>c. \<not> py_isspace c) val)"

text \<open>Fetch layers for the examples: one that answers every request with an empty body,
  one that answers every request with a recipe of \<^verbatim>\<open>lttng-tools\<close>.\<close>

definition empty_body_get :: fetcher where
  "empty_body_get url = Inr []"

definition tools_recipe :: string where
  "tools_recipe = ''LTTNG_TOOLS_VERSION = 2.10.5\<newline>LTTNG_TOOLS_SITE = https://lttng.org''"

definition tools_recipe_get :: fetcher where
  "tools_recipe_get url = Inr tools_recipe"

text \<open>
  What a fetch layer answers for a recipe: the body carries the marker of a branch
  that does not exist, or it carries a version line whose value the version parser
  accepts. A candidate is in order when the recipe of \<^verbatim>\<open>lttng-tools\<close> parses
  and each of the two other recipes parses or is absent.
\<close>

definition recipe_absent :: "fetcher \<Rightarrow> string \<Rightarrow> string \<Rightarrow> bool" where
  "recipe_absent get br_version name =
     (case get (buildroot_url name br_version) of
        Inl e \<Rightarrow> False
      | Inr body \<Rightarrow> sublist ''Invalid branch'' body)"

definition recipe_parses :: "fetcher \<Rightarrow> 'v version_parser \<Rightarrow> string \<Rightarrow> string \<Rightarrow> bool" where
  "recipe_parses get parse br_version name =
     (case get (buildroot_url name br_version) of
        Inl e \<Rightarrow> False
      | Inr body \<Rightarrow>
          \<not> sublist ''Invalid branch'' body \<and>
          (case re_search lttng_version_re body of
             None \<Rightarrow> False
           | Some m \<Rightarrow> parse (m ! 7) \<noteq> None))"

definition recipes_ok :: "fetcher \<Rightarrow> 'v version_parser \<Rightarrow> string \<Rightarrow> bool" where
  "recipes_ok get parse br_version =
     (recipe_parses get parse br_version ''lttng-tools'' \<and>
      (recipe_parses get parse br_version ''lttng-libust'' \<or>
       recipe_absent get br_version ''lttng-libust'') \<and>
      (recipe_parses get parse br_version ''lttng-modules'' \<or>
       recipe_absent get br_version ''lttng-modules''))"

text \<open>
  The probe sequence in closed form: candidate \<open>k\<close> is the quarter \<open>k mod 4\<close> of the
  year \<open>2019 + k div 4\<close>, the quarters being the months 2, 5, 8 and 11.
\<close>

definition candidate_yr :: "nat \<Rightarrow> nat" where
  "candidate_yr k = 2019 + k div 4"

definition candidate_month :: "nat \<Rightarrow> nat" where
  "candidate_month k = 2 + 3 * (k mod 4)"

definition candidate_label :: "nat \<Rightarrow> string" where
  "candidate_label k = br_version_str (candidate_yr k) (candidate_month k)"

text \<open>
  Fetch layers for the Buildroot examples. The first knows the four quarters of 2019:
  it serves a recipe for \<^verbatim>\<open>lttng-tools\<close> and \<^verbatim>\<open>lttng-modules\<close> on them, and
  the marker for every other request, so \<^verbatim>\<open>lttng-libust\<close> is absent throughout.
  The second serves the marker for \<^verbatim>\<open>lttng-tools\<close> at 2020.02 and an empty body
  for every other request.
\<close>

definition modules_recipe :: string where
  "modules_recipe = ''LTTNG_MODULES_VERSION = 2.10.7\<newline>LTTNG_MODULES_SITE = https://lttng.org''"

definition quarter_labels :: "string list" where
  "quarter_labels = [''2019.02'', ''2019.05'', ''2019.08'', ''2019.11'']"

definition four_quarters_get :: fetcher where
  "four_quarters_get url =
     (if url \<in> set (map (buildroot_url ''lttng-tools'') quarter_labels) then Inr tools_recipe
      else if url \<in> set (map (buildroot_url ''lttng-modules'') quarter_labels)
        then Inr modules_recipe
      else Inr ''Invalid branch'')"

definition first_quarter_version :: "string distro_version" where
  "first_quarter_version =
     \<lparr>dv_version = ''2019.02'',
      dv_pkgs = [Some \<lparr>pkg_name = ''lttng-tools'', pkg_version = ''2.10.5''\<rparr>, None,
                 Some \<lparr>pkg_name = ''lttng-modules'', pkg_version = ''2.10.7''\<rparr>]\<rparr>"

definition blank_until_2020_get :: fetcher where
  "blank_until_2020_get url =
     (if url = buildroot_url ''lttng-tools'' ''2020.02'' then Inr ''Invalid branch'' else Inr [])"

text \<open>The rendering that goes with the parser of the examples.\<close>

definition show_version :: "string \<Rightarrow> string" where
  "show_version v = v"

text \<open>
  The column of a product in the words of the specification: the aliases are tried in
  order, and for the first alias that names a package of the entry, the first such
  package is taken.
\<close>

fun first_alias_pkg :: "'v pkg option list \<Rightarrow> string list \<Rightarrow> 'v pkg option" where
  "first_alias_pkg ps [] = None"
| "first_alias_pkg ps (a # as) =
     (case List.find (\<lambda>p. pkg_name p = a) (List.map_filter id ps) of
        Some p \<Rightarrow> Some p
      | None \<Rightarrow> first_alias_pkg ps as)"

text \<open>
  The denylist in the words of the specification: the listed codenames, the values
  that begin with a digit, and the values with the marker \<^verbatim>\<open>-next\<close>.
\<close>

definition codenames :: "string list" where
  "codenames =
     [''daisy'', ''danny'', ''denzil'', ''dizzy'', ''dora'', ''dylan'', ''fido'', ''jethro'',
      ''krogoth'', ''master'', ''morty'', ''pyro'', ''rocko'', ''sumo'']"

definition begins_with_digit :: "string \<Rightarrow> bool" where
  "begins_with_digit v = (case v of [] \<Rightarrow> False | c # cs \<Rightarrow> py_isdigit c)"

definition first_line :: "string \<Rightarrow> string" where
  "first_line v = takeWhile (\<lambda>c. c \<noteq> newline) v"

definition denylisted :: "string \<Rightarrow> bool" where
  "denylisted v =
     (begins_with_digit v \<or> sublist ''-next'' (first_line v) \<or>
      list_ex (\<lambda>c. prefix c v) codenames)"

text \<open>Option values for the examples.\<close>

definition yocto_sample_values :: "string list" where
  "yocto_sample_values = [''3.1.4'', ''sumo'', ''zeus'', ''master-next'', ''dunfell'']"

definition next_on_second_line :: string where
  "next_on_second_line = ''a\<newline>-next''"

section \<open>Properties of the filter-and-bucket routine\<close>

lemma first_labels_snoc:
  "first_labels (ls @ [l]) = (if l \<in> set ls then first_labels ls else first_labels ls @ [l])"
  by (simp add: first_labels_def)

lemma set_first_labels [simp]: "set (first_labels ls) = set ls"
  by (simp add: first_labels_def)

lemma distinct_first_labels [simp]: "distinct (first_labels ls)"
  by (simp add: first_labels_def)

lemma scan_buckets_None:
  "scan_buckets dvs rv i found = None \<longleftrightarrow> found = None \<and> rv \<notin> dv_version ` set dvs"
  by (induction dvs arbitrary: i found) auto

lemma scan_buckets_Some:
  "scan_buckets dvs rv i found = Some j \<Longrightarrow>
     (found = Some j \<and> rv \<notin> dv_version ` set dvs) \<or>
     (i \<le> j \<and> j < i + length dvs \<and> dv_version (dvs ! (j - i)) = rv)"
proof (induction dvs arbitrary: i found)
  case Nil
  then show ?case by simp
next
  case (Cons dv dvs)
  from Cons.prems have
    "scan_buckets dvs rv (Suc i) (if dv_version dv = rv then Some i else found) = Some j"
    by simp
  from Cons.IH [OF this] show ?case
    by (auto split: if_splits simp: nth_Cons' Suc_diff_le)
qed

lemma scan_buckets_start:
  assumes "scan_buckets dvs rv 0 None = Some j"
  shows "j < length dvs \<and> dv_version (dvs ! j) = rv"
  using scan_buckets_Some [OF assms] by simp

lemma map_filter_snoc:
  "List.map_filter f (rs @ [r]) =
     (case f r of None \<Rightarrow> List.map_filter f rs | Some l \<Rightarrow> List.map_filter f rs @ [l])"
  by (simp add: List.map_filter_def split: option.splits)

lemma set_map_filter: "set (List.map_filter f rs) = {l. \<exists>r \<in> set rs. f r = Some l}"
  by (force simp: List.map_filter_def image_iff)

lemma contributions_snoc:
  "contributions parse f l (rs @ [r]) =
     contributions parse f l rs @
     (if f r = Some l
      then [map_option (\<lambda>v. \<lparr>pkg_name = visiblename r, pkg_version = v\<rparr>) (parse (version r))]
      else [])"
  by (simp add: contributions_def)

lemma contributions_fresh:
  "l \<notin> set (List.map_filter f rs) \<Longrightarrow> contributions parse f l rs = []"
  by (auto simp: contributions_def set_map_filter filter_empty_conv)

lemma add_repo_spec:
  assumes "add_repo parse f (spec_buckets parse f pre) r = Inr dvs'"
  shows "dvs' = spec_buckets parse f (pre @ [r])"
proof (cases "f r")
  case None
  with assms show ?thesis
    by (simp add: add_repo_def spec_buckets_def map_filter_snoc contributions_snoc)
next
  case (Some rv)
  then have fr: "f r = Some rv" .
  let ?ls = "first_labels (List.map_filter f pre)"
  let ?dvs = "spec_buckets parse f pre"
  from assms fr obtain v where v: "parse (version r) = Some v"
    by (auto simp: add_repo_def split: option.splits prod.splits)
  let ?p = "Some \<lparr>pkg_name = visiblename r, pkg_version = v\<rparr>"
  have labels: "map dv_version ?dvs = ?ls"
    by (simp add: spec_buckets_def comp_def)
  show ?thesis
  proof (cases "scan_buckets ?dvs rv 0 None")
    case None
    then have fresh: "rv \<notin> set (List.map_filter f pre)"
      using labels by (metis scan_buckets_None set_first_labels set_map)
    have "dvs' = ?dvs @ [\<lparr>dv_version = rv, dv_pkgs = [?p]\<rparr>]"
      using assms fr None v by (simp add: add_repo_def)
    moreover have "spec_buckets parse f (pre @ [r]) = ?dvs @ [\<lparr>dv_version = rv, dv_pkgs = [?p]\<rparr>]"
      using fr fresh v
      by (auto simp: spec_buckets_def map_filter_snoc first_labels_snoc contributions_snoc
            contributions_fresh)
    ultimately show ?thesis by simp
  next
    case (Some i)
    from scan_buckets_start [OF Some] have i: "i < length ?ls" "?ls ! i = rv"
      using labels by (auto simp: spec_buckets_def)
    then have old: "rv \<in> set (List.map_filter f pre)"
      by (metis nth_mem set_first_labels)
    have dvs': "dvs' = ?dvs[i := (?dvs ! i)\<lparr>dv_pkgs := dv_pkgs (?dvs ! i) @ [?p]\<rparr>]"
      using assms fr Some v by (simp add: add_repo_def)
    have "spec_buckets parse f (pre @ [r]) =
            ?dvs[i := (?dvs ! i)\<lparr>dv_pkgs := dv_pkgs (?dvs ! i) @ [?p]\<rparr>]"
    proof (rule nth_equalityI)
      show "length (spec_buckets parse f (pre @ [r])) =
              length (?dvs[i := (?dvs ! i)\<lparr>dv_pkgs := dv_pkgs (?dvs ! i) @ [?p]\<rparr>])"
        using fr old by (simp add: spec_buckets_def map_filter_snoc first_labels_snoc)
    next
      fix j assume "j < length (spec_buckets parse f (pre @ [r]))"
      then have j: "j < length ?ls"
        using fr old by (simp add: spec_buckets_def map_filter_snoc first_labels_snoc)
      have uniq: "?ls ! j = rv \<longleftrightarrow> j = i"
        using i j distinct_first_labels [of "List.map_filter f pre"]
        by (auto simp: distinct_conv_nth)
      show "spec_buckets parse f (pre @ [r]) ! j =
              ?dvs[i := (?dvs ! i)\<lparr>dv_pkgs := dv_pkgs (?dvs ! i) @ [?p]\<rparr>] ! j"
      proof (cases "j = i")
        case True
        then show ?thesis
          using fr old i v
          by (simp add: spec_buckets_def map_filter_snoc first_labels_snoc contributions_snoc)
      next
        case False
        with uniq have "?ls ! j \<noteq> rv" by simp
        then show ?thesis
          using fr old i j False
          by (simp add: spec_buckets_def map_filter_snoc first_labels_snoc contributions_snoc)
      qed
    qed
    with dvs' show ?thesis by simp
  qed
qed

lemma add_repos_spec:
  "add_repos parse f (spec_buckets parse f pre) rs = Inr dvs \<Longrightarrow>
     dvs = spec_buckets parse f (pre @ rs)"
proof (induction rs arbitrary: pre)
  case Nil
  then show ?case by simp
next
  case (Cons r rs)
  from Cons.prems obtain dvs' where
    step: "add_repo parse f (spec_buckets parse f pre) r = Inr dvs'" and
    rest: "add_repos parse f dvs' rs = Inr dvs"
    by (auto split: sum.splits)
  from add_repo_spec [OF step] rest Cons.IH [of "pre @ [r]"] show ?case by simp
qed

lemma from_repos_spec:
  "distro_versions_from_repology_repos parse rs f = Inr dvs \<Longrightarrow> dvs = spec_buckets parse f rs"
  using add_repos_spec [of parse f "[]" rs dvs]
  by (simp add: distro_versions_from_repology_repos_def spec_buckets_def first_labels_def
        List.map_filter_def)

lemma arch_buckets_run:
  "distro_versions_from_repology_repos keep_version mixed_repos arch_repo_version = Inr arch_buckets"
  by (simp add: distro_versions_from_repology_repos_def mixed_repos_def arch_buckets_def
        add_repo_def arch_repo_version_def keep_version_def)

text \<open>
  Claim C1. Whatever the records and the matcher, the bucket list that the routine
  returns has no two entries with the same version label, and its labels are exactly
  the labels that the matcher gives to some record: a record whose label is already
  there goes into the existing bucket.
\<close>

theorem unique_version_labels:
  assumes "distro_versions_from_repology_repos parse repology_repos f = Inr dvs"
  shows "distinct (map dv_version dvs) \<and>
         set (map dv_version dvs) = {l. \<exists>r \<in> set repology_repos. f r = Some l}"
proof -
  from from_repos_spec [OF assms] have "map dv_version dvs = first_labels (List.map_filter f repology_repos)"
    by (simp add: spec_buckets_def comp_def)
  then show ?thesis by (simp add: set_map_filter)
qed

theorem unique_version_labels_witness:
  "distro_versions_from_repology_repos keep_version mixed_repos arch_repo_version = Inr arch_buckets \<and>
   distinct (map dv_version arch_buckets) \<and>
   set (map dv_version arch_buckets) = {l. \<exists>r \<in> set mixed_repos. arch_repo_version r = Some l}"
  using unique_version_labels [OF arch_buckets_run] arch_buckets_run by simp

section \<open>The Debian scenario\<close>

lemma remdups_snoc: "remdups (xs @ [l]) = filter (\<lambda>x. x \<noteq> l) (remdups xs) @ [l]"
  by (induction xs) auto

lemma first_labels_Cons: "first_labels (l # ls) = l # filter (\<lambda>x. x \<noteq> l) (first_labels ls)"
  by (simp add: first_labels_def remdups_snoc rev_filter)

lemma add_repos_parsed:
  "add_repos parse f dvs0 rs = Inr dvs \<Longrightarrow> r \<in> set rs \<Longrightarrow> f r \<noteq> None \<Longrightarrow> parse (version r) \<noteq> None"
proof (induction rs arbitrary: dvs0)
  case Nil
  then show ?case by simp
next
  case (Cons a rs)
  from Cons.prems(1) obtain dvs' where
    step: "add_repo parse f dvs0 a = Inr dvs'" and rest: "add_repos parse f dvs' rs = Inr dvs"
    by (auto split: sum.splits)
  show ?case
  proof (cases "r = a")
    case True
    with step Cons.prems(3) show ?thesis
      by (auto simp: add_repo_def split: option.splits prod.splits)
  next
    case False
    with Cons.prems(2) have "r \<in> set rs" by simp
    from Cons.IH [OF rest this Cons.prems(3)] show ?thesis .
  qed
qed

lemma debian_11: "debian_repo_version \<lparr>repo = ''debian_11'', visiblename = n, version = w\<rparr> = Some ''11''"
  by (simp add: debian_repo_version_def debian_re_def re_match_def run_lengths_def cons_piece_def
        last_char_def newline_def)

lemma debian_12: "debian_repo_version \<lparr>repo = ''debian_12'', visiblename = n, version = w\<rparr> = Some ''12''"
  by (simp add: debian_repo_version_def debian_re_def re_match_def run_lengths_def cons_piece_def
        last_char_def newline_def)

lemma debian_sid: "debian_repo_version \<lparr>repo = ''debian_sid'', visiblename = n, version = w\<rparr> = None"
  by (simp add: debian_repo_version_def debian_re_def re_match_def run_lengths_def cons_piece_def
        last_char_def newline_def)

lemma debian_arch: "debian_repo_version \<lparr>repo = ''arch'', visiblename = n, version = w\<rparr> = None"
  by (simp add: debian_repo_version_def debian_re_def re_match_def)

lemma debian_buckets_run:
  "distro_versions_from_repology_repos keep_version mixed_repos debian_repo_version = Inr debian_buckets"
  by (simp add: distro_versions_from_repology_repos_def mixed_repos_def debian_buckets_def
        add_repo_def debian_11 debian_12 debian_arch keep_version_def)

text \<open>
  Claim C10. The bucket list that the routine returns has its labels in the order in
  which the matching records first introduce them, and each bucket holds the packages
  of the records carrying its label, in the order of the records; every such record
  had a version that the parser accepted.
\<close>

theorem buckets_keep_input_order:
  assumes "distro_versions_from_repology_repos parse repology_repos f = Inr dvs"
  shows "map dv_version dvs = first_labels (List.map_filter f repology_repos) \<and>
         (\<forall>dv \<in> set dvs. dv_pkgs dv = contributions parse f (dv_version dv) repology_repos) \<and>
         (\<forall>r \<in> set repology_repos. f r \<noteq> None \<longrightarrow> parse (version r) \<noteq> None)"
proof -
  from from_repos_spec [OF assms] have dvs: "dvs = spec_buckets parse f repology_repos" .
  have "map dv_version dvs = first_labels (List.map_filter f repology_repos)"
    by (simp add: dvs spec_buckets_def comp_def)
  moreover have "\<forall>dv \<in> set dvs. dv_pkgs dv = contributions parse f (dv_version dv) repology_repos"
    by (auto simp: dvs spec_buckets_def)
  moreover have "\<forall>r \<in> set repology_repos. f r \<noteq> None \<longrightarrow> parse (version r) \<noteq> None"
    using assms add_repos_parsed [of parse f "[]" repology_repos dvs]
    by (auto simp: distro_versions_from_repology_repos_def)
  ultimately show ?thesis by simp
qed

theorem buckets_keep_input_order_witness:
  "distro_versions_from_repology_repos keep_version mixed_repos debian_repo_version = Inr debian_buckets \<and>
   map dv_version debian_buckets = [''11'', ''12''] \<and>
   first_labels (List.map_filter debian_repo_version mixed_repos) = [''11'', ''12''] \<and>
   map dv_pkgs debian_buckets =
     [contributions keep_version debian_repo_version ''11'' mixed_repos,
      contributions keep_version debian_repo_version ''12'' mixed_repos]"
proof -
  have "first_labels (List.map_filter debian_repo_version mixed_repos) = [''11'', ''12'']"
    by (simp add: mixed_repos_def List.map_filter_def debian_11 debian_12 debian_arch first_labels_def)
  with buckets_keep_input_order [OF debian_buckets_run] debian_buckets_run show ?thesis
    by (simp add: debian_buckets_def)
qed

text \<open>
  Claim C8. On the two records \<^verbatim>\<open>debian_11\<close> and \<^verbatim>\<open>debian_sid\<close> of
  \<^verbatim>\<open>lttng-tools\<close>, the Debian builder returns one bucket, labelled \<^verbatim>\<open>11\<close>, and
  none for \<^verbatim>\<open>sid\<close>, for every version parser that accepts \<^verbatim>\<open>2.13.0\<close>.
\<close>

theorem debian_excludes_sid:
  assumes "parse ''2.13.0'' = Some v"
  shows "debian_distro parse debian_scenario_repos =
           Inr \<lparr>distro_name = ''Debian'',
                distro_versions =
                  [\<lparr>dv_version = ''11'',
                    dv_pkgs = [Some \<lparr>pkg_name = ''lttng-tools'', pkg_version = v\<rparr>]\<rparr>]\<rparr>"
  using assms
  by (simp add: debian_distro_def distro_versions_from_repology_repos_def debian_scenario_repos_def
        add_repo_def debian_11 debian_sid)

lemma keep_2_13_0: "keep_version ''2.13.0'' = Some ''2.13.0''"
  by (simp add: keep_version_def)

theorem debian_excludes_sid_witness:
  "keep_version ''2.13.0'' = Some ''2.13.0'' \<and>
   debian_distro keep_version debian_scenario_repos =
     Inr \<lparr>distro_name = ''Debian'',
          distro_versions =
            [\<lparr>dv_version = ''11'',
              dv_pkgs = [Some \<lparr>pkg_name = ''lttng-tools'', pkg_version = ''2.13.0''\<rparr>]\<rparr>]\<rparr>"
  using debian_excludes_sid [of keep_version "''2.13.0''"] keep_2_13_0 by simp

section \<open>The routine leaves its input alone\<close>

lemma build_from_frame:
  "shared_repos (snd (build_from parse f i st)) = shared_repos st"
proof (induction parse f i st rule: build_from.induct)
  case (1 parse f i st)
  show ?case
  proof (cases "i < length (shared_repos st)")
    case False
    then show ?thesis by (subst build_from.simps) simp
  next
    case True
    show ?thesis
    proof (cases "add_repo parse f (local_dvs st) (shared_repos st ! i)")
      case (Inl e)
      with True show ?thesis by (subst build_from.simps) simp
    next
      case (Inr dvs')
      with True "1.IH" [OF True Inr] show ?thesis by (subst build_from.simps) simp
    qed
  qed
qed

lemma build_from_pure:
  "build_result (build_from parse f i st) =
     add_repos parse f (local_dvs st) (drop i (shared_repos st))"
proof (induction parse f i st rule: build_from.induct)
  case (1 parse f i st)
  show ?case
  proof (cases "i < length (shared_repos st)")
    case False
    then show ?thesis by (subst build_from.simps) (simp add: build_result_def)
  next
    case True
    then have d: "drop i (shared_repos st) = shared_repos st ! i # drop (Suc i) (shared_repos st)"
      by (simp add: Cons_nth_drop_Suc)
    show ?thesis
    proof (cases "add_repo parse f (local_dvs st) (shared_repos st ! i)")
      case (Inl e)
      with True d show ?thesis by (subst build_from.simps) (simp add: build_result_def)
    next
      case (Inr dvs')
      with True d "1.IH" [OF True Inr] show ?thesis by (subst build_from.simps) simp
    qed
  qed
qed

text \<open>
  Claim C9. Building twice from the same record list gives the same outcome: the
  first build leaves the shared list as it was, so does the second, the second build
  (run on the list as the first build left it) returns what the first returned, and
  both return what the routine returns as a function of the records.
\<close>

theorem build_twice_same:
  "build_result (build parse f (shared_repos (snd (build parse f repology_repos)))) =
     build_result (build parse f repology_repos) \<and>
   shared_repos (snd (build parse f repology_repos)) = repology_repos \<and>
   shared_repos (snd (build parse f (shared_repos (snd (build parse f repology_repos))))) =
     repology_repos \<and>
   build_result (build parse f repology_repos) =
     distro_versions_from_repology_repos parse repology_repos f"
proof -
  let ?st = "\<lparr>shared_repos = repology_repos, local_dvs = []\<rparr> :: 'a build_state"
  have frame: "shared_repos (snd (build parse f repology_repos)) = repology_repos"
    using build_from_frame [of parse f 0 ?st] by (simp only: build_def build_state.simps)
  have pure: "build_result (build parse f repology_repos) =
                distro_versions_from_repology_repos parse repology_repos f"
    using build_from_pure [of parse f 0 ?st]
    by (simp only: build_def distro_versions_from_repology_repos_def build_state.simps drop_0)
  from frame pure show ?thesis by (simp only: simp_thms)
qed

section \<open>Properties of the regular expression matcher\<close>

lemma le_length_takeWhile:
  "k \<le> length (takeWhile P s) \<longleftrightarrow> k \<le> length s \<and> list_all P (take k s)"
proof (induction s arbitrary: k)
  case Nil
  then show ?case by simp
next
  case (Cons x xs)
  then show ?case by (cases k) auto
qed

lemma mem_run_lengths:
  "k \<in> set (run_lengths lo c s) \<longleftrightarrow> lo \<le> k \<and> k \<le> length s \<and> list_all (in_class c) (take k s)"
proof -
  have "k \<in> set (run_lengths lo c s) \<longleftrightarrow> lo \<le> k \<and> k \<le> length (takeWhile (in_class c) s)"
    by (auto simp: run_lengths_def)
  then show ?thesis by (simp only: le_length_takeWhile)
qed

lemma mem_cons_piece:
  "(ps, t) \<in> cons_piece p ` set ms \<longleftrightarrow> (\<exists>qs. ps = p # qs \<and> (qs, t) \<in> set ms)"
  by (force simp: cons_piece_def image_iff)

lemma split_run:
  "(\<exists>k. lo \<le> k \<and> k \<le> length s \<and> list_all P (take k s) \<and> p = take k s \<and> t = drop k s) \<longleftrightarrow>
   (lo \<le> length p \<and> list_all P p \<and> s = p @ t)"
proof
  assume "\<exists>k. lo \<le> k \<and> k \<le> length s \<and> list_all P (take k s) \<and> p = take k s \<and> t = drop k s"
  then show "lo \<le> length p \<and> list_all P p \<and> s = p @ t" by auto
next
  assume r: "lo \<le> length p \<and> list_all P p \<and> s = p @ t"
  then have "lo \<le> length p \<and> length p \<le> length s \<and> list_all P (take (length p) s) \<and>
             p = take (length p) s \<and> t = drop (length p) s"
    by simp
  then show "\<exists>k. lo \<le> k \<and> k \<le> length s \<and> list_all P (take k s) \<and> p = take k s \<and> t = drop k s"
    by blast
qed

lemma mem_quantified:
  "(ps, t) \<in> set (concat (map (\<lambda>k. map (cons_piece (take k s)) (F k)) (run_lengths lo c s))) \<longleftrightarrow>
   (\<exists>k. lo \<le> k \<and> k \<le> length s \<and> list_all (in_class c) (take k s) \<and>
      (\<exists>qs. ps = take k s # qs \<and> (qs, t) \<in> set (F k)))"
proof -
  have "(ps, t) \<in> set (concat (map (\<lambda>k. map (cons_piece (take k s)) (F k)) (run_lengths lo c s))) \<longleftrightarrow>
        (\<exists>k \<in> set (run_lengths lo c s). (ps, t) \<in> cons_piece (take k s) ` set (F k))"
    by simp
  also have "\<dots> \<longleftrightarrow> (\<exists>k. lo \<le> k \<and> k \<le> length s \<and> list_all (in_class c) (take k s) \<and>
      (\<exists>qs. ps = take k s # qs \<and> (qs, t) \<in> set (F k)))"
    by (simp only: mem_cons_piece Bex_def mem_run_lengths conj_assoc)
  finally show ?thesis .
qed

lemma parses_fst_nonempty: "m \<in> set (parses (it # its) prev s) \<Longrightarrow> fst m \<noteq> []"
proof (cases it)
  case Bol
  assume "m \<in> set (parses (it # its) prev s)"
  with Bol show ?thesis by (auto simp: cons_piece_def split: if_splits)
next
  case (Lit l)
  assume "m \<in> set (parses (it # its) prev s)"
  with Lit show ?thesis by (auto simp: cons_piece_def split: if_splits)
next
  case (One c)
  assume "m \<in> set (parses (it # its) prev s)"
  with One show ?thesis by (auto simp: cons_piece_def split: if_splits list.splits)
next
  case (Plus c)
  assume "m \<in> set (parses (it # its) prev s)"
  with Plus show ?thesis by (auto simp: cons_piece_def)
next
  case (Star c)
  assume "m \<in> set (parses (it # its) prev s)"
  with Star show ?thesis by (auto simp: cons_piece_def)
qed

lemma step_quantified:
  assumes IH: "\<And>ps prev s t. (ps, t) \<in> set (parses its prev s) \<longleftrightarrow>
                 matches_items its prev ps \<and> s = concat ps @ t"
  shows "(p # qs, t) \<in> set (concat (map (\<lambda>k. map (cons_piece (take k s))
             (parses its (last_char prev (take k s)) (drop k s))) (run_lengths lo c s))) \<longleftrightarrow>
         matches_items its (last_char prev p) qs \<and>
         (lo \<le> length p \<and> list_all (in_class c) p \<and> s = p @ concat qs @ t)"
proof -
  have "(p # qs, t) \<in> set (concat (map (\<lambda>k. map (cons_piece (take k s))
             (parses its (last_char prev (take k s)) (drop k s))) (run_lengths lo c s))) \<longleftrightarrow>
        (\<exists>k. lo \<le> k \<and> k \<le> length s \<and> list_all (in_class c) (take k s) \<and>
           (\<exists>qs'. p # qs = take k s # qs' \<and>
              (qs', t) \<in> set (parses its (last_char prev (take k s)) (drop k s))))"
    by (rule mem_quantified)
  also have "\<dots> \<longleftrightarrow>
        (\<exists>k. lo \<le> k \<and> k \<le> length s \<and> list_all (in_class c) (take k s) \<and>
           (\<exists>qs'. p # qs = take k s # qs' \<and>
              matches_items its (last_char prev (take k s)) qs' \<and> drop k s = concat qs' @ t))"
    by (simp only: IH)
  also have "\<dots> \<longleftrightarrow> matches_items its (last_char prev p) qs \<and>
        (\<exists>k. lo \<le> k \<and> k \<le> length s \<and> list_all (in_class c) (take k s) \<and> p = take k s \<and>
           concat qs @ t = drop k s)"
    by (rule iffI; clarsimp; metis)
  also have "\<dots> \<longleftrightarrow> matches_items its (last_char prev p) qs \<and>
        (lo \<le> length p \<and> list_all (in_class c) p \<and> s = p @ concat qs @ t)"
    by (simp only: split_run)
  finally show ?thesis .
qed

lemma parses_iff:
  "(ps, t) \<in> set (parses its prev s) \<longleftrightarrow> matches_items its prev ps \<and> s = concat ps @ t"
proof (induction its arbitrary: prev s ps t)
  case Nil
  then show ?case by auto
next
  case (Cons it its)
  show ?case
  proof (cases ps)
    case Nil
    then show ?thesis using parses_fst_nonempty [of "(ps, t)" it its prev s] by auto
  next
    case ps: (Cons p qs)
    show ?thesis
    proof (cases it)
      case Bol
      have "(ps, t) \<in> set (parses (it # its) prev s) \<longleftrightarrow>
            (prev = None \<or> prev = Some newline) \<and> p = [] \<and> (qs, t) \<in> set (parses its prev s)"
        unfolding Bol ps by (auto simp: mem_cons_piece)
      then show ?thesis unfolding Bol ps by (simp only: Cons.IH) auto
    next
      case (Lit l)
      have "(ps, t) \<in> set (parses (it # its) prev s) \<longleftrightarrow>
            prefix l s \<and> p = l \<and> (qs, t) \<in> set (parses its (last_char prev l) (drop (length l) s))"
        unfolding Lit ps by (auto simp: mem_cons_piece)
      then show ?thesis unfolding Lit ps by (simp only: Cons.IH) (auto simp: prefix_def)
    next
      case (One c)
      have "(ps, t) \<in> set (parses (it # its) prev s) \<longleftrightarrow>
            (\<exists>x xs. s = x # xs \<and> in_class c x \<and> p = [x] \<and> (qs, t) \<in> set (parses its (Some x) xs))"
        unfolding One ps by (cases s) (auto simp: mem_cons_piece)
      then have "(ps, t) \<in> set (parses (it # its) prev s) \<longleftrightarrow>
            (\<exists>x xs. s = x # xs \<and> in_class c x \<and> p = [x] \<and> matches_items its (Some x) qs \<and> xs = concat qs @ t)"
        by (simp only: Cons.IH)
      also have "\<dots> \<longleftrightarrow> matches_items (it # its) prev ps \<and> s = concat ps @ t"
        unfolding One ps by (cases p) (auto simp: last_char_def)
      finally show ?thesis .
    next
      case (Plus c)
      show ?thesis unfolding Plus ps parses.simps
        by (simp only: step_quantified [OF Cons.IH]) (auto simp: Suc_le_eq)
    next
      case (Star c)
      show ?thesis unfolding Star ps parses.simps
        by (simp only: step_quantified [OF Cons.IH]) auto
    qed
  qed
qed

lemma concat_head: "concat xss = m # ms \<Longrightarrow> \<exists>xs \<in> set xss. \<exists>ms'. xs = m # ms'"
proof (induction xss)
  case Nil
  then show ?case by simp
next
  case (Cons xs xss)
  then show ?case by (cases xs) auto
qed

lemma map_cons_piece_head:
  "map (cons_piece p) xs = m # ms \<Longrightarrow> \<exists>m' ms'. xs = m' # ms' \<and> snd m = snd m'"
  by (cases xs) (auto simp: cons_piece_def)

lemma quantified_head:
  assumes "concat (map (\<lambda>k. map (cons_piece (take k s)) (F k)) ks) = m # ms"
  shows "\<exists>k m' ms'. F k = m' # ms' \<and> snd m = snd m'"
proof -
  from concat_head [OF assms] obtain xs ms' where
    xs: "xs \<in> set (map (\<lambda>k. map (cons_piece (take k s)) (F k)) ks)" "xs = m # ms'" by blast
  from xs(1) obtain k where "xs = map (cons_piece (take k s)) (F k)"
    unfolding set_map by (rule imageE)
  with xs have "map (cons_piece (take k s)) (F k) = m # ms'" by simp
  from map_cons_piece_head [OF this] show ?thesis by blast
qed

lemma parses_step_head:
  assumes "parses (it # its) prev s = m # ms"
  shows "\<exists>prev' s' m' ms'. parses its prev' s' = m' # ms' \<and> snd m = snd m'"
proof (cases it)
  case Bol
  with assms have "map (cons_piece []) (parses its prev s) = m # ms"
    by (simp split: if_splits)
  from map_cons_piece_head [OF this] show ?thesis by blast
next
  case (Lit l)
  with assms have "map (cons_piece l) (parses its (last_char prev l) (drop (length l) s)) = m # ms"
    by (simp split: if_splits)
  from map_cons_piece_head [OF this] show ?thesis by blast
next
  case (One c)
  with assms obtain x xs where "map (cons_piece [x]) (parses its (Some x) xs) = m # ms"
    by (auto split: list.splits if_splits)
  from map_cons_piece_head [OF this] show ?thesis by blast
next
  case (Plus c)
  with assms quantified_head [of s "\<lambda>k. parses its (last_char prev (take k s)) (drop k s)"
      "run_lengths 1 c s" m ms]
  show ?thesis by auto
next
  case (Star c)
  with assms quantified_head [of s "\<lambda>k. parses its (last_char prev (take k s)) (drop k s)"
      "run_lengths 0 c s" m ms]
  show ?thesis by auto
qed

lemma parses_last_head:
  assumes "parses [Plus c] prev s = m # ms"
  shows "snd m = [] \<or> \<not> in_class c (hd (snd m))"
proof -
  define n where "n = length (takeWhile (in_class c) s)"
  have ps: "parses [Plus c] prev s = map (\<lambda>k. ([take k s], drop k s)) (rev [1..<Suc n])"
    unfolding n_def by (simp add: run_lengths_def cons_piece_def del: upt_Suc)
  show ?thesis
  proof (cases n)
    case 0
    with ps assms show ?thesis by simp
  next
    case (Suc n')
    then have "rev [1..<Suc n] = n # rev [1..<n]" by simp
    with ps assms have "snd m = drop n s" by auto
    also have "\<dots> = dropWhile (in_class c) s" by (simp add: dropWhile_eq_drop n_def)
    finally show ?thesis using hd_dropWhile [of "in_class c" s] by auto
  qed
qed

lemma parses_head_greedy:
  "its \<noteq> [] \<Longrightarrow> last its = Plus c \<Longrightarrow> parses its prev s = m # ms \<Longrightarrow>
     snd m = [] \<or> \<not> in_class c (hd (snd m))"
proof (induction its arbitrary: prev s m ms)
  case Nil
  then show ?case by simp
next
  case (Cons it its)
  show ?case
  proof (cases "its = []")
    case True
    with Cons.prems parses_last_head show ?thesis by auto
  next
    case False
    with Cons.prems have l: "last its = Plus c" by simp
    from parses_step_head [OF Cons.prems(3)] obtain prev' s' m' ms' where
      "parses its prev' s' = m' # ms'" "snd m = snd m'" by blast
    with Cons.IH [OF False l] show ?thesis by metis
  qed
qed

lemma last_char_Nil: "last_char prev [] = prev"
  by (simp add: last_char_def)

lemma last_char_Cons: "last_char prev (c # pre) = last_char (Some c) pre"
  by (simp add: last_char_def)

lemma re_search_from_None:
  "re_search_from its prev s = None \<longleftrightarrow>
     (\<forall>pre post. s = pre @ post \<longrightarrow> parses its (last_char prev pre) post = [])"
proof (induction s arbitrary: prev)
  case Nil
  show ?case by (auto simp: last_char_Nil split: list.splits)
next
  case (Cons c cs)
  have "re_search_from its prev (c # cs) = None \<longleftrightarrow>
        parses its prev (c # cs) = [] \<and> re_search_from its (Some c) cs = None"
    by (auto split: list.splits)
  also have "\<dots> \<longleftrightarrow> parses its prev (c # cs) = [] \<and>
        (\<forall>pre post. cs = pre @ post \<longrightarrow> parses its (last_char (Some c) pre) post = [])"
    by (simp only: Cons.IH)
  also have "\<dots> \<longleftrightarrow>
        (\<forall>pre post. c # cs = pre @ post \<longrightarrow> parses its (last_char prev pre) post = [])"
  proof (intro iffI allI impI, goal_cases)
    case (1 pre post)
    show ?case
    proof (cases pre)
      case Nil
      with 1 show ?thesis by (simp add: last_char_Nil)
    next
      case (Cons a pre')
      with 1 have "cs = pre' @ post" "a = c" by auto
      with 1 have "parses its (last_char (Some c) pre') post = []" by blast
      then show ?thesis using Cons \<open>a = c\<close> by (simp add: last_char_Cons)
    qed
  next
    case 2
    have a: "parses its prev (c # cs) = []"
      using 2 [rule_format, of "[]" "c # cs"] by (simp add: last_char_Nil)
    have b: "parses its (last_char (Some c) pre) post = []" if "cs = pre @ post" for pre post
      using 2 [rule_format, of "c # pre" post] that by (simp add: last_char_Cons)
    from a b show ?case by blast
  qed
  finally show ?case .
qed

lemma re_search_from_Some:
  "re_search_from its prev s = Some gs \<Longrightarrow>
     \<exists>pre post m ms. s = pre @ post \<and> parses its (last_char prev pre) post = m # ms \<and> gs = fst m"
proof (induction s arbitrary: prev)
  case Nil
  then have "\<exists>m ms. parses its prev [] = m # ms \<and> gs = fst m"
    by (auto split: list.splits)
  then show ?case by (auto simp: last_char_Nil)
next
  case (Cons c cs)
  show ?case
  proof (cases "parses its prev (c # cs)")
    case Nil
    with Cons.prems have "re_search_from its (Some c) cs = Some gs" by simp
    from Cons.IH [OF this] obtain pre post m ms where
      "cs = pre @ post" "parses its (last_char (Some c) pre) post = m # ms" "gs = fst m" by blast
    then have "c # cs = (c # pre) @ post \<and> parses its (last_char prev (c # pre)) post = m # ms \<and> gs = fst m"
      by (simp add: last_char_Cons)
    then show ?thesis by blast
  next
    case (Cons m ms)
    with Cons.prems have "gs = fst m" by simp
    with Cons have "c # cs = [] @ (c # cs) \<and> parses its (last_char prev []) (c # cs) = m # ms \<and> gs = fst m"
      by (simp add: last_char_Nil)
    then show ?thesis by blast
  qed
qed

section \<open>The version line of a recipe\<close>

lemma matches_Bol:
  "matches_items (Bol # its) prev gs \<longleftrightarrow>
     (\<exists>ps. gs = [] # ps \<and> (prev = None \<or> prev = Some newline) \<and> matches_items its prev ps)"
  by (cases gs) auto

lemma matches_Lit:
  "matches_items (Lit l # its) prev gs \<longleftrightarrow>
     (\<exists>ps. gs = l # ps \<and> matches_items its (last_char prev l) ps)"
  by (cases gs) auto

lemma matches_Plus:
  "matches_items (Plus c # its) prev gs \<longleftrightarrow>
     (\<exists>p ps. gs = p # ps \<and> p \<noteq> [] \<and> list_all (in_class c) p \<and>
        matches_items its (last_char prev p) ps)"
  by (cases gs) auto

lemma matches_Star:
  "matches_items (Star c # its) prev gs \<longleftrightarrow>
     (\<exists>p ps. gs = p # ps \<and> list_all (in_class c) p \<and> matches_items its (last_char prev p) ps)"
  by (cases gs) auto

lemma matches_One:
  "matches_items (One c # its) prev gs \<longleftrightarrow>
     (\<exists>x ps. gs = [x] # ps \<and> in_class c x \<and> matches_items its (Some x) ps)"
proof (cases gs)
  case Nil
  then show ?thesis by simp
next
  case (Cons p ps)
  then show ?thesis by (cases p) (auto simp: last_char_def)
qed

lemma in_class_funs:
  "in_class AnyChar = (\<lambda>c. c \<noteq> newline)" "in_class Whitespace = py_isspace"
  "in_class NonWhitespace = (\<lambda>c. \<not> py_isspace c)"
  by (auto simp: fun_eq_iff)

lemma matches_items_length: "matches_items its prev gs \<Longrightarrow> length gs = length its"
proof (induction its arbitrary: prev gs)
  case Nil
  then show ?case by simp
next
  case (Cons it its)
  then show ?case by (cases gs; cases it) auto
qed

lemma lttng_matches:
  "matches_items lttng_version_re prev gs \<longleftrightarrow>
     (\<exists>key ws1 ws2 val.
        gs = [[], ''LTTNG_'', key, ''_VERSION'', ws1, ''='', ws2, val] \<and>
        (prev = None \<or> prev = Some newline) \<and>
        key \<noteq> [] \<and> list_all (\<lambda>c. c \<noteq> newline) key \<and>
        ws1 \<noteq> [] \<and> list_all py_isspace ws1 \<and>
        ws2 \<noteq> [] \<and> list_all py_isspace ws2 \<and>
        val \<noteq> [] \<and> list_all (\<lambda>c. \<not> py_isspace c) val)"
proof
  assume m: "matches_items lttng_version_re prev gs"
  from matches_items_length [OF m] obtain p0 p1 p2 p3 p4 p5 p6 p7 where
    gs: "gs = [p0, p1, p2, p3, p4, p5, p6, p7]"
    by (auto simp: lttng_version_re_def length_Suc_conv)
  from m show "\<exists>key ws1 ws2 val.
        gs = [[], ''LTTNG_'', key, ''_VERSION'', ws1, ''='', ws2, val] \<and>
        (prev = None \<or> prev = Some newline) \<and>
        key \<noteq> [] \<and> list_all (\<lambda>c. c \<noteq> newline) key \<and>
        ws1 \<noteq> [] \<and> list_all py_isspace ws1 \<and>
        ws2 \<noteq> [] \<and> list_all py_isspace ws2 \<and>
        val \<noteq> [] \<and> list_all (\<lambda>c. \<not> py_isspace c) val"
    unfolding gs lttng_version_re_def by (simp add: in_class_funs)
next
  assume "\<exists>key ws1 ws2 val.
        gs = [[], ''LTTNG_'', key, ''_VERSION'', ws1, ''='', ws2, val] \<and>
        (prev = None \<or> prev = Some newline) \<and>
        key \<noteq> [] \<and> list_all (\<lambda>c. c \<noteq> newline) key \<and>
        ws1 \<noteq> [] \<and> list_all py_isspace ws1 \<and>
        ws2 \<noteq> [] \<and> list_all py_isspace ws2 \<and>
        val \<noteq> [] \<and> list_all (\<lambda>c. \<not> py_isspace c) val"
  then obtain key ws1 ws2 val where
    gs: "gs = [[], ''LTTNG_'', key, ''_VERSION'', ws1, ''='', ws2, val]" and
    c: "prev = None \<or> prev = Some newline"
      "key \<noteq> []" "list_all (\<lambda>c. c \<noteq> newline) key"
      "ws1 \<noteq> []" "list_all py_isspace ws1" "ws2 \<noteq> []" "list_all py_isspace ws2"
      "val \<noteq> []" "list_all (\<lambda>c. \<not> py_isspace c) val"
    by blast
  from c show "matches_items lttng_version_re prev gs"
    unfolding gs lttng_version_re_def by (simp add: in_class_funs)
qed

lemma last_char_start: "(last_char None before = None \<or> last_char None before = Some newline) \<longleftrightarrow>
    (before = [] \<or> last before = newline)"
  by (simp add: last_char_def)

lemma lttng_found:
  assumes "re_search lttng_version_re body = Some gs"
  shows "\<exists>before key ws1 ws2 val after.
           version_line body before key ws1 ws2 val after \<and> gs ! 7 = val \<and>
           (after = [] \<or> py_isspace (hd after))"
proof -
  from assms re_search_from_Some [of lttng_version_re None body gs] obtain before post m ms where
    body: "body = before @ post" and
    ps: "parses lttng_version_re (last_char None before) post = m # ms" and
    gs: "gs = fst m"
    by (auto simp: re_search_def)
  from ps have "(fst m, snd m) \<in> set (parses lttng_version_re (last_char None before) post)"
    by simp
  then have m: "matches_items lttng_version_re (last_char None before) gs" and
    post: "post = concat gs @ snd m"
    using gs by (simp_all only: parses_iff)
  from m obtain key ws1 ws2 val where
    shape: "gs = [[], ''LTTNG_'', key, ''_VERSION'', ws1, ''='', ws2, val]" and
    start: "last_char None before = None \<or> last_char None before = Some newline" and
    rest: "key \<noteq> []" "list_all (\<lambda>c. c \<noteq> newline) key" "ws1 \<noteq> []" "list_all py_isspace ws1"
      "ws2 \<noteq> []" "list_all py_isspace ws2" "val \<noteq> []" "list_all (\<lambda>c. \<not> py_isspace c) val"
    unfolding lttng_matches by blast
  have greedy: "snd m = [] \<or> \<not> in_class NonWhitespace (hd (snd m))"
    by (rule parses_head_greedy [OF _ _ ps]) (simp_all add: lttng_version_re_def)
  have "version_line body before key ws1 ws2 val (snd m)"
    unfolding version_line_def using body post shape start rest
    by (simp add: last_char_start)
  moreover have "gs ! 7 = val" using shape by simp
  moreover have "snd m = [] \<or> py_isspace (hd (snd m))" using greedy by simp
  ultimately show ?thesis by blast
qed

lemma lttng_not_found:
  "re_search lttng_version_re body = None \<longleftrightarrow>
     \<not> (\<exists>before key ws1 ws2 val after. version_line body before key ws1 ws2 val after)"
proof
  assume none: "re_search lttng_version_re body = None"
  show "\<not> (\<exists>before key ws1 ws2 val after. version_line body before key ws1 ws2 val after)"
  proof
    assume "\<exists>before key ws1 ws2 val after. version_line body before key ws1 ws2 val after"
    then obtain before key ws1 ws2 val after where
      v: "version_line body before key ws1 ws2 val after" by blast
    let ?gs = "[[], ''LTTNG_'', key, ''_VERSION'', ws1, ''='', ws2, val]"
    from v have m: "matches_items lttng_version_re (last_char None before) ?gs"
      unfolding lttng_matches version_line_def by (simp add: last_char_start)
    from v have body: "body = before @ (concat ?gs @ after)"
      by (simp add: version_line_def)
    from m have "(?gs, after) \<in> set (parses lttng_version_re (last_char None before) (concat ?gs @ after))"
      by (simp only: parses_iff simp_thms)
    moreover from none body have "parses lttng_version_re (last_char None before) (concat ?gs @ after) = []"
      unfolding re_search_def re_search_from_None by blast
    ultimately show False by simp
  qed
next
  assume no: "\<not> (\<exists>before key ws1 ws2 val after. version_line body before key ws1 ws2 val after)"
  show "re_search lttng_version_re body = None"
  proof (cases "re_search lttng_version_re body")
    case None
    then show ?thesis .
  next
    case (Some gs)
    from lttng_found [OF Some] no show ?thesis by blast
  qed
qed

section \<open>The recipe field extraction\<close>

lemma buildroot_pkg_marker:
  assumes "get (buildroot_url name br_version) = Inr body" and "sublist ''Invalid branch'' body"
  shows "buildroot_pkg get parse br_version name = Inr None"
  using assms by (simp add: buildroot_pkg_def)

lemma buildroot_pkg_no_line:
  assumes "get (buildroot_url name br_version) = Inr body" and "\<not> sublist ''Invalid branch'' body"
  shows "buildroot_pkg get parse br_version name = Inl AttributeError \<longleftrightarrow>
         \<not> (\<exists>before key ws1 ws2 val after. version_line body before key ws1 ws2 val after)"
proof -
  have "buildroot_pkg get parse br_version name = Inl AttributeError \<longleftrightarrow>
        re_search lttng_version_re body = None"
    using assms by (auto simp: buildroot_pkg_def split: option.splits)
  then show ?thesis by (simp only: lttng_not_found)
qed

lemma buildroot_pkg_line:
  assumes "get (buildroot_url name br_version) = Inr body" and "\<not> sublist ''Invalid branch'' body"
    and "buildroot_pkg get parse br_version name \<noteq> Inl AttributeError"
  shows "\<exists>before key ws1 ws2 val after.
           version_line body before key ws1 ws2 val after \<and>
           (after = [] \<or> py_isspace (hd after)) \<and>
           buildroot_pkg get parse br_version name =
             (case parse val of
                None \<Rightarrow> Inl InvalidVersion
              | Some v \<Rightarrow> Inr (Some \<lparr>pkg_name = name, pkg_version = v\<rparr>))"
proof (cases "re_search lttng_version_re body")
  case None
  with assms show ?thesis by (simp add: buildroot_pkg_def)
next
  case (Some gs)
  from lttng_found [OF Some] obtain before key ws1 ws2 val after where
    "version_line body before key ws1 ws2 val after" "gs ! 7 = val"
    "after = [] \<or> py_isspace (hd after)" by blast
  moreover from this assms Some have "buildroot_pkg get parse br_version name =
             (case parse val of
                None \<Rightarrow> Inl InvalidVersion
              | Some v \<Rightarrow> Inr (Some \<lparr>pkg_name = name, pkg_version = v\<rparr>))"
    by (simp add: buildroot_pkg_def)
  ultimately show ?thesis by blast
qed

text \<open>
  Claim C4, as amended. For a recipe body that was fetched: if it contains the marker
  \<^verbatim>\<open>Invalid branch\<close>, the extraction reports the identifier as absent upstream
  (\<^verbatim>\<open>None\<close>), whatever else the body holds. Otherwise it raises
  \<^verbatim>\<open>AttributeError\<close> exactly when the body has no version line; and when it
  has one, the value it hands to the version parser is the value of a version line,
  free of white space and followed by white space or the end of the body, and the
  result is the package with the parsed version, or \<^verbatim>\<open>InvalidVersion\<close> when the
  parser rejects the value.
\<close>

theorem recipe_field_extraction:
  assumes "get (buildroot_url name br_version) = Inr body"
  shows "(sublist ''Invalid branch'' body \<longrightarrow> buildroot_pkg get parse br_version name = Inr None) \<and>
         (\<not> sublist ''Invalid branch'' body \<longrightarrow>
            (buildroot_pkg get parse br_version name = Inl AttributeError \<longleftrightarrow>
               \<not> (\<exists>before key ws1 ws2 val after. version_line body before key ws1 ws2 val after)) \<and>
            (buildroot_pkg get parse br_version name \<noteq> Inl AttributeError \<longrightarrow>
               (\<exists>before key ws1 ws2 val after.
                  version_line body before key ws1 ws2 val after \<and>
                  (after = [] \<or> py_isspace (hd after)) \<and>
                  buildroot_pkg get parse br_version name =
                    (case parse val of
                       None \<Rightarrow> Inl InvalidVersion
                     | Some v \<Rightarrow> Inr (Some \<lparr>pkg_name = name, pkg_version = v\<rparr>)))))"
proof -
  note inst = assms
  have a: "sublist ''Invalid branch'' body \<Longrightarrow> buildroot_pkg get parse br_version name = Inr None"
    using inst by (rule buildroot_pkg_marker [where get = get and body = body])
  have b: "\<not> sublist ''Invalid branch'' body \<Longrightarrow>
      (buildroot_pkg get parse br_version name = Inl AttributeError \<longleftrightarrow>
         \<not> (\<exists>before key ws1 ws2 val after. version_line body before key ws1 ws2 val after))"
    using inst by (rule buildroot_pkg_no_line [where get = get and body = body])
  have c: "\<not> sublist ''Invalid branch'' body \<Longrightarrow>
      buildroot_pkg get parse br_version name \<noteq> Inl AttributeError \<Longrightarrow>
      (\<exists>before key ws1 ws2 val after.
                  version_line body before key ws1 ws2 val after \<and>
                  (after = [] \<or> py_isspace (hd after)) \<and>
                  buildroot_pkg get parse br_version name =
                    (case parse val of
                       None \<Rightarrow> Inl InvalidVersion
                     | Some v \<Rightarrow> Inr (Some \<lparr>pkg_name = name, pkg_version = v\<rparr>)))"
    using inst by (rule buildroot_pkg_line [where get = get and body = body])
  from a b c show ?thesis by blast
qed

lemma tools_recipe_line:
  "version_line tools_recipe [] ''TOOLS'' '' '' '' '' ''2.10.5''
     ''\<newline>LTTNG_TOOLS_SITE = https://lttng.org''"
  by (simp add: version_line_def tools_recipe_def newline_def py_isspace_def)

lemma tools_recipe_no_marker: "\<not> sublist ''Invalid branch'' tools_recipe"
  by (simp add: tools_recipe_def) code_simp

theorem recipe_field_extraction_witness:
  "tools_recipe_get (buildroot_url ''lttng-tools'' ''2019.02'') = Inr tools_recipe \<and>
   \<not> sublist ''Invalid branch'' tools_recipe \<and>
   version_line tools_recipe [] ''TOOLS'' '' '' '' '' ''2.10.5''
     ''\<newline>LTTNG_TOOLS_SITE = https://lttng.org'' \<and>
   buildroot_pkg tools_recipe_get keep_version ''2019.02'' ''lttng-tools'' \<noteq> Inl AttributeError"
proof -
  have g: "tools_recipe_get (buildroot_url ''lttng-tools'' ''2019.02'') = Inr tools_recipe"
    by (simp add: tools_recipe_get_def)
  from recipe_field_extraction [where get = tools_recipe_get and body = tools_recipe
      and name = "''lttng-tools''" and br_version = "''2019.02''" and parse = keep_version, OF g]
    tools_recipe_no_marker tools_recipe_line
  have "buildroot_pkg tools_recipe_get keep_version ''2019.02'' ''lttng-tools'' \<noteq> Inl AttributeError"
    by blast
  with g tools_recipe_no_marker tools_recipe_line show ?thesis by simp
qed

text \<open>
  Claim C4 as stated fails on the empty body: it has no marker and no version line,
  and the outcome is the exception \<^verbatim>\<open>AttributeError\<close>, not a "not found" value.
\<close>

theorem missing_version_line_raises:
  "empty_body_get (buildroot_url ''lttng-tools'' ''2019.02'') = Inr [] \<and>
   \<not> sublist ''Invalid branch'' [] \<and>
   re_search lttng_version_re [] = None \<and>
   buildroot_pkg empty_body_get keep_version ''2019.02'' ''lttng-tools'' = Inl AttributeError"
  by (simp add: empty_body_get_def buildroot_pkg_def re_search_def lttng_version_re_def)

section \<open>The Buildroot probing loop\<close>

lemma candidate_next:
  "(if 11 < candidate_month k + 3 then (candidate_yr k + 1, 2)
    else (candidate_yr k, candidate_month k + 3)) = (candidate_yr (Suc k), candidate_month (Suc k))"
proof -
  have "k mod 4 = 0 \<or> k mod 4 = 1 \<or> k mod 4 = 2 \<or> k mod 4 = 3" by arith
  then show ?thesis
    by (auto simp: candidate_yr_def candidate_month_def mod_Suc div_Suc)
qed

lemma buildroot_pkg_None_iff:
  "buildroot_pkg get parse br_version name = Inr None \<longleftrightarrow> recipe_absent get br_version name"
  by (auto simp: buildroot_pkg_def recipe_absent_def split: sum.splits option.splits)

lemma buildroot_pkg_parses:
  "recipe_parses get parse br_version name \<Longrightarrow>
     \<exists>v. buildroot_pkg get parse br_version name = Inr (Some \<lparr>pkg_name = name, pkg_version = v\<rparr>)"
  by (auto simp: buildroot_pkg_def recipe_parses_def split: sum.splits option.splits)


lemma distro_version_None_iff:
  "buildroot_distro_version get parse br_version = Inr None \<longleftrightarrow>
     recipe_absent get br_version ''lttng-tools''"
proof -
  have "buildroot_distro_version get parse br_version = Inr None \<longleftrightarrow>
        buildroot_pkg get parse br_version ''lttng-tools'' = Inr None"
    by (auto simp: buildroot_distro_version_def split: sum.splits option.splits)
  then show ?thesis by (simp only: buildroot_pkg_None_iff)
qed


lemma distro_version_ok:
  assumes "recipes_ok get parse br_version"
  shows "\<exists>dv. buildroot_distro_version get parse br_version = Inr (Some dv) \<and>
           dv_version dv = br_version"
proof -
  from assms buildroot_pkg_parses [of get parse br_version "''lttng-tools''"] obtain v where
    t: "buildroot_pkg get parse br_version ''lttng-tools'' =
          Inr (Some \<lparr>pkg_name = ''lttng-tools'', pkg_version = v\<rparr>)"
    by (auto simp: recipes_ok_def)
  from assms obtain u where u: "buildroot_pkg get parse br_version ''lttng-libust'' = Inr u"
    using buildroot_pkg_parses [of get parse br_version "''lttng-libust''"]
      buildroot_pkg_None_iff [of get parse br_version "''lttng-libust''"]
    by (auto simp: recipes_ok_def)
  from assms obtain m where m: "buildroot_pkg get parse br_version ''lttng-modules'' = Inr m"
    using buildroot_pkg_parses [of get parse br_version "''lttng-modules''"]
      buildroot_pkg_None_iff [of get parse br_version "''lttng-modules''"]
    by (auto simp: recipes_ok_def)
  from t u m show ?thesis by (simp add: buildroot_distro_version_def)
qed

lemma loop_step:
  "buildroot_loop get parse (candidate_yr k) (candidate_month k) dvs =
     (case buildroot_distro_version get parse (candidate_label k) of
        Inl e \<Rightarrow> Some (Inl e)
      | Inr None \<Rightarrow> Some (Inr dvs)
      | Inr (Some dv) \<Rightarrow>
          buildroot_loop get parse (candidate_yr (Suc k)) (candidate_month (Suc k)) (dvs @ [dv]))"
proof -
  have "11 < candidate_month k + 3 \<Longrightarrow>
          candidate_yr k + 1 = candidate_yr (Suc k) \<and> 2 = candidate_month (Suc k)"
    using candidate_next [of k] by (simp split: if_splits)
  moreover have "\<not> 11 < candidate_month k + 3 \<Longrightarrow>
          candidate_yr k = candidate_yr (Suc k) \<and> candidate_month k + 3 = candidate_month (Suc k)"
    using candidate_next [of k] by (simp split: if_splits)
  ultimately show ?thesis
    by (subst buildroot_loop.simps)
      (auto simp: candidate_label_def split: sum.splits option.splits)
qed


lemma str_nat_digit: "n < 10 \<Longrightarrow> str_nat n = [digit_char n]"
  by simp

lemma str_nat_more: "\<not> n < 10 \<Longrightarrow> str_nat n = str_nat (n div 10) @ [digit_char (n mod 10)]"
  by simp

lemma digit_chars:
  "digit_char 0 = CHR ''0''" "digit_char 1 = CHR ''1''" "digit_char 2 = CHR ''2''"
  "digit_char 3 = CHR ''3''" "digit_char 4 = CHR ''4''" "digit_char 5 = CHR ''5''"
  "digit_char 6 = CHR ''6''" "digit_char 7 = CHR ''7''" "digit_char 8 = CHR ''8''"
  "digit_char 9 = CHR ''9''" "digit_char (Suc 0) = CHR ''1''"
  by code_simp+

lemma br_labels:
  "br_version_str 2019 2 = ''2019.02''" "br_version_str 2019 5 = ''2019.05''"
  "br_version_str 2019 8 = ''2019.08''" "br_version_str 2019 11 = ''2019.11''"
  "br_version_str 2020 2 = ''2020.02''"
  by (simp_all add: br_version_str_def zero_pad_def digit_chars str_nat_digit str_nat_more
        del: str_nat.simps)

lemma candidate_labels:
  "candidate_label 0 = ''2019.02''" "candidate_label 1 = ''2019.05''"
  "candidate_label 2 = ''2019.08''" "candidate_label 3 = ''2019.11''"
  "candidate_label 4 = ''2020.02''" "candidate_label (Suc 0) = ''2019.05''"
  by (simp_all add: candidate_label_def candidate_yr_def candidate_month_def br_labels)

lemma candidate_start: "candidate_yr 0 = 2019" "candidate_month 0 = 2"
  by (simp_all add: candidate_yr_def candidate_month_def)

lemma loop_yields:
  assumes "\<forall>i < n. recipes_ok get parse (candidate_label (k + i))"
    and "recipe_absent get (candidate_label (k + n)) ''lttng-tools''"
  shows "\<exists>dvs'. buildroot_loop get parse (candidate_yr k) (candidate_month k) dvs =
             Some (Inr (dvs @ dvs')) \<and>
           map dv_version dvs' = map candidate_label [k..<k + n]"
  using assms
proof (induction n arbitrary: k dvs)
  case 0
  then have "buildroot_distro_version get parse (candidate_label k) = Inr None"
    by (simp add: distro_version_None_iff)
  then have "buildroot_loop get parse (candidate_yr k) (candidate_month k) dvs = Some (Inr dvs)"
    by (simp add: loop_step)
  then show ?case by simp
next
  case (Suc n)
  from Suc.prems(1) have "recipes_ok get parse (candidate_label (k + 0))" by blast
  then have "recipes_ok get parse (candidate_label k)" by simp
  from distro_version_ok [OF this] obtain dv where
    dv: "buildroot_distro_version get parse (candidate_label k) = Inr (Some dv)"
      "dv_version dv = candidate_label k" by blast
  have a: "\<forall>i < n. recipes_ok get parse (candidate_label (Suc k + i))"
  proof (intro allI impI)
    fix i assume "i < n"
    then have "Suc i < Suc n" by simp
    with Suc.prems(1) have "recipes_ok get parse (candidate_label (k + Suc i))" by blast
    then show "recipes_ok get parse (candidate_label (Suc k + i))" by simp
  qed
  from Suc.prems(2) have b: "recipe_absent get (candidate_label (Suc k + n)) ''lttng-tools''"
    by simp
  from Suc.IH [OF a b, of "dvs @ [dv]"] obtain dvs' where
    r: "buildroot_loop get parse (candidate_yr (Suc k)) (candidate_month (Suc k)) (dvs @ [dv]) =
          Some (Inr ((dvs @ [dv]) @ dvs'))"
      "map dv_version dvs' = map candidate_label [Suc k..<Suc k + n]"
    by blast
  have "[k..<k + Suc n] = k # [Suc k..<Suc k + n]" by (simp add: upt_conv_Cons)
  with r dv have "buildroot_loop get parse (candidate_yr k) (candidate_month k) dvs =
             Some (Inr (dvs @ (dv # dvs'))) \<and>
           map dv_version (dv # dvs') = map candidate_label [k..<k + Suc n]"
    by (simp add: loop_step)
  then show ?case by blast
qed


lemma four_quarters_ok:
  "recipes_ok four_quarters_get keep_version ''2019.02''"
  "recipes_ok four_quarters_get keep_version ''2019.05''"
  "recipes_ok four_quarters_get keep_version ''2019.08''"
  "recipes_ok four_quarters_get keep_version ''2019.11''"
  by code_simp+

lemma four_quarters_end: "recipe_absent four_quarters_get ''2020.02'' ''lttng-tools''"
  by code_simp



lemma first_quarter_run:
  "buildroot_distro_version four_quarters_get keep_version ''2019.02'' =
     Inr (Some first_quarter_version)"
  by code_simp

lemma blank_first_quarter:
  "buildroot_distro_version blank_until_2020_get keep_version ''2019.02'' = Inl AttributeError"
  by code_simp

lemma blank_absences:
  "recipe_absent blank_until_2020_get ''2020.02'' ''lttng-tools''"
  "\<not> recipe_absent blank_until_2020_get ''2019.02'' ''lttng-tools''"
  "\<not> recipe_absent blank_until_2020_get ''2019.05'' ''lttng-tools''"
  "\<not> recipe_absent blank_until_2020_get ''2019.08'' ''lttng-tools''"
  "\<not> recipe_absent blank_until_2020_get ''2019.11'' ''lttng-tools''"
  by code_simp+

lemma wrap_step:
  assumes "buildroot_distro_version get parse ''2019.11'' = Inr (Some dv)"
  shows "buildroot_loop get parse 2019 11 dvs = buildroot_loop get parse 2020 2 (dvs @ [dv])"
proof -
  have "candidate_yr 3 = 2019" "candidate_month 3 = 11"
    "candidate_yr (Suc 3) = 2020" "candidate_month (Suc 3) = 2"
    by (simp_all add: candidate_yr_def candidate_month_def)
  with loop_step [of get parse 3 dvs] assms candidate_labels(4) show ?thesis by simp
qed

text \<open>
  Claim C2, as amended. When the recipe of \<^verbatim>\<open>lttng-tools\<close> is reported absent at
  2020.02 and the recipes of the four candidates 2019.02, 2019.05, 2019.08 and 2019.11
  are in order (the one of \<^verbatim>\<open>lttng-tools\<close> parses, each other one parses or is
  absent), the builder returns the distribution \<^verbatim>\<open>Buildroot\<close> with exactly four
  entries, labelled by these four candidates in this order; and after the candidate
  2019.11 the loop goes on with the year 2020 and the month 2.
\<close>

theorem buildroot_four_quarters:
  assumes "recipes_ok get parse ''2019.02''" and "recipes_ok get parse ''2019.05''"
    and "recipes_ok get parse ''2019.08''" and "recipes_ok get parse ''2019.11''"
    and "recipe_absent get ''2020.02'' ''lttng-tools''"
  shows "(\<exists>dvs. buildroot_distro get parse =
             Some (Inr \<lparr>distro_name = ''Buildroot'', distro_versions = dvs\<rparr>) \<and>
           map dv_version dvs = [''2019.02'', ''2019.05'', ''2019.08'', ''2019.11'']) \<and>
         (\<forall>dvs dv. buildroot_distro_version get parse ''2019.11'' = Inr (Some dv) \<longrightarrow>
            buildroot_loop get parse 2019 11 dvs = buildroot_loop get parse 2020 2 (dvs @ [dv]))"
proof -
  have ok: "\<forall>i < 4. recipes_ok get parse (candidate_label (0 + i))"
  proof (intro allI impI)
    fix i :: nat assume "i < 4"
    then have "i = 0 \<or> i = 1 \<or> i = 2 \<or> i = 3" by arith
    with assms(1-4) show "recipes_ok get parse (candidate_label (0 + i))"
      by (auto simp: candidate_labels)
  qed
  have stop: "recipe_absent get (candidate_label (0 + 4)) ''lttng-tools''"
    using assms(5) by (simp add: candidate_labels)
  from loop_yields [OF ok stop, of "[]"] obtain dvs where
    run: "buildroot_loop get parse (candidate_yr 0) (candidate_month 0) [] = Some (Inr dvs)" and
    labels: "map dv_version dvs = map candidate_label [0..<0 + 4]"
    by auto
  have "[0..<0 + 4] = [0, 1, 2, 3::nat]" by (simp add: upt_rec)
  with labels have l: "map dv_version dvs = [''2019.02'', ''2019.05'', ''2019.08'', ''2019.11'']"
    by (simp add: candidate_labels)
  from run have d: "buildroot_distro get parse =
      Some (Inr \<lparr>distro_name = ''Buildroot'', distro_versions = dvs\<rparr>)"
    by (simp add: buildroot_distro_def candidate_start)
  have first: "\<exists>dvs. buildroot_distro get parse =
             Some (Inr \<lparr>distro_name = ''Buildroot'', distro_versions = dvs\<rparr>) \<and>
           map dv_version dvs = [''2019.02'', ''2019.05'', ''2019.08'', ''2019.11'']"
    using d l by (intro exI [of _ dvs] conjI)
  have second: "\<forall>dvs dv. buildroot_distro_version get parse ''2019.11'' = Inr (Some dv) \<longrightarrow>
            buildroot_loop get parse 2019 11 dvs = buildroot_loop get parse 2020 2 (dvs @ [dv])"
    by (intro allI impI) (rule wrap_step)
  from first second show ?thesis by (rule conjI)
qed

theorem buildroot_four_quarters_witness:
  "recipes_ok four_quarters_get keep_version ''2019.02'' \<and>
   recipes_ok four_quarters_get keep_version ''2019.05'' \<and>
   recipes_ok four_quarters_get keep_version ''2019.08'' \<and>
   recipes_ok four_quarters_get keep_version ''2019.11'' \<and>
   recipe_absent four_quarters_get ''2020.02'' ''lttng-tools'' \<and>
   (\<exists>dvs. buildroot_distro four_quarters_get keep_version =
             Some (Inr \<lparr>distro_name = ''Buildroot'', distro_versions = dvs\<rparr>) \<and>
           map dv_version dvs = [''2019.02'', ''2019.05'', ''2019.08'', ''2019.11''])"
  using buildroot_four_quarters [OF four_quarters_ok four_quarters_end] four_quarters_ok
    four_quarters_end
  by blast

text \<open>
  Claim C2 as stated fails on a fetch layer that reports \<^verbatim>\<open>lttng-tools\<close> absent
  at 2020.02 for the first time but serves empty bodies before: the builder raises
  \<^verbatim>\<open>AttributeError\<close> at the first candidate and yields no entry.
\<close>

theorem blank_recipes_abort:
  "recipe_absent blank_until_2020_get ''2020.02'' ''lttng-tools'' \<and>
   \<not> recipe_absent blank_until_2020_get ''2019.02'' ''lttng-tools'' \<and>
   \<not> recipe_absent blank_until_2020_get ''2019.05'' ''lttng-tools'' \<and>
   \<not> recipe_absent blank_until_2020_get ''2019.08'' ''lttng-tools'' \<and>
   \<not> recipe_absent blank_until_2020_get ''2019.11'' ''lttng-tools'' \<and>
   buildroot_distro blank_until_2020_get keep_version = Some (Inl AttributeError)"
proof -
  have "buildroot_loop blank_until_2020_get keep_version 2019 2 [] = Some (Inl AttributeError)"
    by (subst buildroot_loop.simps) (simp add: br_labels blank_first_quarter)
  then have "buildroot_distro blank_until_2020_get keep_version = Some (Inl AttributeError)"
    by (simp add: buildroot_distro_def)
  with blank_absences show ?thesis by simp
qed






section \<open>Properties of the table columns\<close>

lemma pkg_scan_present:
  "list_all (\<lambda>p. p \<noteq> None) ps \<Longrightarrow>
     pkg_scan ps name = Inr (List.find (\<lambda>p. pkg_name p = name) (List.map_filter id ps))"
proof (induction ps)
  case Nil
  then show ?case by (simp add: List.map_filter_def)
next
  case (Cons p ps)
  then show ?case by (cases p) (auto simp: List.map_filter_def)
qed

lemma first_named_pkg_present:
  "list_all (\<lambda>p. p \<noteq> None) (dv_pkgs dv) \<Longrightarrow>
     first_named_pkg dv names = Inr (first_alias_pkg (dv_pkgs dv) names)"
  by (induction names) (auto simp: distro_version_pkg_def pkg_scan_present split: option.splits)

lemma column_without_placeholder:
  assumes "list_all (\<lambda>p. p \<noteq> None) (dv_pkgs dv)"
  shows "distro_version_pkg_version str dv names =
           Inr (case first_alias_pkg (dv_pkgs dv) names of
                  None \<Rightarrow> []
                | Some p \<Rightarrow> str (pkg_version p))"
  using first_named_pkg_present [OF assms, of names]
  by (simp add: distro_version_pkg_version_def split: option.splits)

text \<open>
  Claim C5 on the entry that the Buildroot builder makes when \<^verbatim>\<open>lttng-libust\<close> is
  absent: the column of \<^verbatim>\<open>lttng-tools\<close> is its version, but the scan for the two other
  columns reaches the \<^verbatim>\<open>None\<close> slot and raises \<^verbatim>\<open>AttributeError\<close>, although
  no package matches an alias of LTTng-UST (the claim: the empty string) and the package
  \<^verbatim>\<open>lttng-modules\<close> is there (the claim: its version).
\<close>

theorem placeholder_breaks_columns:
  "buildroot_distro_version four_quarters_get keep_version ''2019.02'' =
     Inr (Some first_quarter_version) \<and>
   distro_version_pkg_version show_version first_quarter_version tools_names = Inr ''2.10.5'' \<and>
   distro_version_pkg_version show_version first_quarter_version ust_names = Inl AttributeError \<and>
   distro_version_pkg_version show_version first_quarter_version modules_names =
     Inl AttributeError"
  using first_quarter_run
  by (simp add: distro_version_pkg_version_def distro_version_pkg_def first_quarter_version_def
        tools_names_def ust_names_def modules_names_def show_version_def)

section \<open>Properties of the Yocto denylist\<close>

lemma re_match_iff:
  "re_match its v \<noteq> None \<longleftrightarrow> (\<exists>ps t. matches_items its None ps \<and> v = concat ps @ t)"
proof -
  have "re_match its v \<noteq> None \<longleftrightarrow> (\<exists>ps t. (ps, t) \<in> set (parses its None v))"
  proof (cases "parses its None v")
    case Nil
    then show ?thesis by (simp add: re_match_def)
  next
    case (Cons m ms)
    obtain ps t where "m = (ps, t)" by (cases m)
    with Cons have "(ps, t) \<in> set (parses its None v)" by simp
    then have "\<exists>ps t. (ps, t) \<in> set (parses its None v)" by blast
    with Cons show ?thesis by (simp add: re_match_def)
  qed
  then show ?thesis by (simp only: parses_iff)
qed

lemma match_codename: "re_match [Lit c] v \<noteq> None \<longleftrightarrow> prefix c v"
  unfolding re_match_iff by (auto simp: matches_Lit prefix_def)

lemma match_digit: "re_match [One Digit, Star AnyChar] v \<noteq> None \<longleftrightarrow> begins_with_digit v"
proof
  assume "re_match [One Digit, Star AnyChar] v \<noteq> None"
  then show "begins_with_digit v"
    unfolding re_match_iff by (auto simp: matches_One matches_Star begins_with_digit_def)
next
  assume "begins_with_digit v"
  then obtain c cs where v: "v = c # cs" "py_isdigit c"
    by (auto simp: begins_with_digit_def split: list.splits)
  then have "matches_items [One Digit, Star AnyChar] None [[c], []] \<and> v = concat [[c], []] @ cs"
    by simp
  then show "re_match [One Digit, Star AnyChar] v \<noteq> None"
    unfolding re_match_iff by blast
qed

lemma first_line_append:
  "list_all (\<lambda>c. c \<noteq> newline) a \<Longrightarrow> first_line (a @ r) = a @ first_line r"
  by (simp add: first_line_def list_all_iff)

lemma first_line_clean: "list_all (\<lambda>c. c \<noteq> newline) (first_line v)"
  unfolding first_line_def list_all_iff by (auto dest: set_takeWhileD)

lemma first_line_split: "v = first_line v @ dropWhile (\<lambda>c. c \<noteq> newline) v"
  by (simp add: first_line_def)

lemma next_clean: "list_all (\<lambda>c. c \<noteq> newline) ''-next''"
  by (simp add: newline_def)

lemma match_next:
  "re_match [Star AnyChar, Lit ''-next'', Star AnyChar] v \<noteq> None \<longleftrightarrow>
     sublist ''-next'' (first_line v)"
proof
  assume "re_match [Star AnyChar, Lit ''-next'', Star AnyChar] v \<noteq> None"
  then obtain ps t where
    m: "matches_items [Star AnyChar, Lit ''-next'', Star AnyChar] None ps" and
    v: "v = concat ps @ t"
    unfolding re_match_iff by blast
  from matches_items_length [OF m] obtain a l b where ps: "ps = [a, l, b]"
    by (auto simp: length_Suc_conv)
  from m have a: "list_all (\<lambda>c. c \<noteq> newline) a" and l: "l = ''-next''"
    unfolding ps by (simp_all add: in_class_funs)
  from a next_clean have "list_all (\<lambda>c. c \<noteq> newline) (a @ ''-next'')"
    by simp
  from first_line_append [OF this, of "b @ t"] v ps l
  have "first_line v = a @ ''-next'' @ first_line (b @ t)" by simp
  then show "sublist ''-next'' (first_line v)"
    unfolding sublist_def by blast
next
  assume "sublist ''-next'' (first_line v)"
  then obtain a b where fl: "first_line v = a @ ''-next'' @ b"
    unfolding sublist_def by blast
  from first_line_clean [of v] fl have
    ab: "list_all (\<lambda>c. c \<noteq> newline) a" "list_all (\<lambda>c. c \<noteq> newline) b"
    by simp_all
  from first_line_split [of v] fl
  have "v = concat [a, ''-next'', b] @ dropWhile (\<lambda>c. c \<noteq> newline) v"
    by simp
  moreover have "matches_items [Star AnyChar, Lit ''-next'', Star AnyChar] None [a, ''-next'', b]"
    using ab by (simp add: in_class_funs)
  ultimately show "re_match [Star AnyChar, Lit ''-next'', Star AnyChar] v \<noteq> None"
    unfolding re_match_iff by blast
qed

lemma is_valid_iff: "is_valid res v \<longleftrightarrow> (\<forall>re \<in> set res. re_match re v = None)"
  by (induction res) auto

lemma is_valid_denylisted: "is_valid yocto_version_blacklist v \<longleftrightarrow> \<not> denylisted v"
proof -
  have bl: "yocto_version_blacklist =
      [Star AnyChar, Lit ''-next'', Star AnyChar] # [One Digit, Star AnyChar] #
      map (\<lambda>c. [Lit c]) codenames"
    by (simp add: yocto_version_blacklist_def codenames_def)
  have "is_valid yocto_version_blacklist v \<longleftrightarrow>
      re_match [Star AnyChar, Lit ''-next'', Star AnyChar] v = None \<and>
      re_match [One Digit, Star AnyChar] v = None \<and>
      (\<forall>c \<in> set codenames. re_match [Lit c] v = None)"
    unfolding bl is_valid_iff by simp
  also have "\<dots> \<longleftrightarrow> \<not> sublist ''-next'' (first_line v) \<and> \<not> begins_with_digit v \<and>
      (\<forall>c \<in> set codenames. \<not> prefix c v)"
    using match_next [of v] match_digit [of v] match_codename [of _ v] by blast
  also have "\<dots> \<longleftrightarrow> \<not> denylisted v"
    by (auto simp: denylisted_def list_ex_iff)
  finally show ?thesis .
qed

lemma valid_versions_loop_filter:
  "valid_versions_loop (map Some vs) acc = Inr (acc @ filter (\<lambda>v. \<not> denylisted v) vs)"
  by (induction vs arbitrary: acc) (simp_all add: is_valid_denylisted)

text \<open>
  Claim C7, as amended. When every option has a value, the enumeration returns, in
  document order, the values that are not denylisted; a value is denylisted exactly
  when it begins with a digit, or its first line contains \<^verbatim>\<open>-next\<close>, or it begins
  with one of the listed codenames.
\<close>

theorem yocto_enumeration:
  "yocto_valid_versions (map Some vs) = Inr (filter (\<lambda>v. \<not> denylisted v) vs)"
  by (simp add: yocto_valid_versions_def valid_versions_loop_filter)

lemma sample_filter:
  "filter (\<lambda>v. \<not> denylisted v) yocto_sample_values = [''zeus'', ''dunfell'']"
  by code_simp

theorem yocto_enumeration_witness:
  "yocto_valid_versions (map Some yocto_sample_values) = Inr [''zeus'', ''dunfell'']"
  using yocto_enumeration [of yocto_sample_values] sample_filter by simp

text \<open>
  Claim C7 as stated fails on a value that contains \<^verbatim>\<open>-next\<close> after a line break:
  \<^verbatim>\<open>.\<close> does not match the line feed, so the pattern \<^verbatim>\<open>.*-next.*\<close> does not match
  at the start of the value, and the value is retained.
\<close>

theorem next_after_line_break_retained:
  "sublist ''-next'' next_on_second_line \<and>
   yocto_valid_versions [Some next_on_second_line] = Inr [next_on_second_line]"
  by code_simp

end
